theory Spec2Isabelle
  imports Complex_Main "HOL-Library.Multiset"
begin

section \<open>Python values shared by the models\<close>

text \<open>
  The exceptions of the source that the models can reach. A function that may raise
  returns \<open>py_error + 'a\<close>, with \<open>Inl\<close> for the exception.
\<close>

datatype py_error = InvalidMove | IndexError | KeyError | ValueError | TypeError | UnpicklingError

text \<open>
  \<open>str.split()\<close> without an argument: the string is cut at runs of whitespace, and
  no empty token is produced. The whitespace characters are those of Python for ASCII text.
\<close>

definition is_space :: "char \<Rightarrow> bool" where
  "is_space c = (c \<in> set [CHR 0x20, CHR 0x09, CHR 0x0A, CHR 0x0B, CHR 0x0C, CHR 0x0D,
                            CHR 0x1C, CHR 0x1D, CHR 0x1E, CHR 0x1F])"

fun split_ws_acc :: "string \<Rightarrow> string \<Rightarrow> string list" where
  "split_ws_acc cur [] = (if cur = [] then [] else [cur])"
| "split_ws_acc cur (c # cs) =
     (if is_space c
      then (if cur = [] then split_ws_acc [] cs else cur # split_ws_acc [] cs)
      else split_ws_acc (cur @ [c]) cs)"

definition split_ws :: "string \<Rightarrow> string list" where
  "split_ws s = split_ws_acc [] s"

section \<open>Move inference: \<open>get_moves\<close> (utils.py)\<close>

text \<open>
  The rule engine (python-chess) is not part of the repository: \<open>get_moves\<close> only calls
  it. Its operations are the fields of a record, so that \<open>get_moves\<close> is modelled for
  every engine. \<open>push\<close> returns the board after the move; the source pushes on a copy
  and pops again, which leaves the copy equal to the board it was copied from.
\<close>

record ('b, 'm) rule_engine =
  generate_legal_moves :: "'b \<Rightarrow> 'm list"
  push :: "'b \<Rightarrow> 'm \<Rightarrow> 'b"
  chess_board_fen :: "'b \<Rightarrow> string"
  uci :: "'m \<Rightarrow> string"

text \<open>The first loop of \<open>get_moves\<close>: one ply.\<close>

fun single_move_loop :: "('b, 'm) rule_engine \<Rightarrow> 'b \<Rightarrow> string \<Rightarrow> 'm list \<Rightarrow> 'm option" where
  "single_move_loop E b f [] = None"
| "single_move_loop E b f (m # ms) =
     (if f = chess_board_fen E (push E b m) then Some m else single_move_loop E b f ms)"

text \<open>The inner loop of the second pass: the replies \<open>move2\<close> to one \<open>move\<close>.\<close>

fun reply_loop :: "('b, 'm) rule_engine \<Rightarrow> 'b \<Rightarrow> string \<Rightarrow> 'm list \<Rightarrow> 'm option" where
  "reply_loop E b1 f [] = None"
| "reply_loop E b1 f (m2 # ms) =
     (if f = chess_board_fen E (push E b1 m2) then Some m2 else reply_loop E b1 f ms)"

text \<open>The second pass: two plies.\<close>

fun double_move_loop ::
  "('b, 'm) rule_engine \<Rightarrow> 'b \<Rightarrow> string \<Rightarrow> 'm list \<Rightarrow> ('m \<times> 'm) option" where
  "double_move_loop E b f [] = None"
| "double_move_loop E b f (m # ms) =
     (let b1 = push E b m;
          legal_moves2 = generate_legal_moves E b1
      in case reply_loop E b1 f legal_moves2 of
           Some m2 \<Rightarrow> Some (m, m2)
         | None \<Rightarrow> double_move_loop E b f ms)"

definition get_moves :: "('b, 'm) rule_engine \<Rightarrow> 'b \<Rightarrow> string \<Rightarrow> py_error + string list" where
  "get_moves E board fen =
     (case split_ws fen of
        [] \<Rightarrow> Inl IndexError
      | board_fen # _ \<Rightarrow>
          if chess_board_fen E board = board_fen then Inr []
          else
            let moves = generate_legal_moves E board
            in case single_move_loop E board board_fen moves of
                 Some m \<Rightarrow> Inr [uci E m]
               | None \<Rightarrow>
                   (case double_move_loop E board board_fen moves of
                      Some (m, m2) \<Rightarrow> Inr [uci E m, uci E m2]
                    | None \<Rightarrow> Inl InvalidMove))"

text \<open>
  The specification's side: the one-ply candidates are the legal moves in generation
  order; the two-ply candidates are the pairs of a legal move and a legal reply, ordered
  by the move first and the reply second.
\<close>

definition reproduces1 :: "('b, 'm) rule_engine \<Rightarrow> 'b \<Rightarrow> string \<Rightarrow> 'm \<Rightarrow> bool" where
  "reproduces1 E b f m = (chess_board_fen E (push E b m) = f)"

definition reproduces2 :: "('b, 'm) rule_engine \<Rightarrow> 'b \<Rightarrow> string \<Rightarrow> 'm \<times> 'm \<Rightarrow> bool" where
  "reproduces2 E b f p = (chess_board_fen E (push E (push E b (fst p)) (snd p)) = f)"

definition two_ply_sequences :: "('b, 'm) rule_engine \<Rightarrow> 'b \<Rightarrow> ('m \<times> 'm) list" where
  "two_ply_sequences E b =
     concat (map (\<lambda>m. map (Pair m) (generate_legal_moves E (push E b m)))
                 (generate_legal_moves E b))"

text \<open>A toy engine for concrete runs: a board is the string of its moves so far.\<close>

definition toy_engine :: "(string, char) rule_engine" where
  "toy_engine = \<lparr> generate_legal_moves = (\<lambda>b. if length b < 3 then ''ab'' else []),
                  push = (\<lambda>b m. b @ [m]),
                  chess_board_fen = (\<lambda>b. b),
                  uci = (\<lambda>m. [m]) \<rparr>"


section \<open>Python lists, strings and counters\<close>

text \<open>
  \<open>xs[i]\<close> for a Python list: a negative index counts from the end, and an index
  outside \<open>-len(xs) .. len(xs) - 1\<close> raises IndexError (here: \<open>None\<close>).
\<close>

definition py_index :: "'a list \<Rightarrow> int \<Rightarrow> nat option" where
  "py_index xs i =
     (let n = int (length xs); j = (if i < 0 then n + i else i)
      in if 0 \<le> j \<and> j < n then Some (nat j) else None)"

text \<open>
  \<open>str.split(' ')\<close>: the string is cut at every single space, so there is one token
  more than there are spaces, and tokens may be empty.
\<close>

fun split_on_acc :: "char \<Rightarrow> string \<Rightarrow> string \<Rightarrow> string list" where
  "split_on_acc sep cur [] = [cur]"
| "split_on_acc sep cur (c # cs) =
     (if c = sep then cur # split_on_acc sep [] cs else split_on_acc sep (cur @ [c]) cs)"

definition split_on :: "char \<Rightarrow> string \<Rightarrow> string list" where
  "split_on sep s = split_on_acc sep [] s"

text \<open>\<open>str(n)\<close> for an integer: its decimal digits, with a minus sign when negative.\<close>

definition digit_char :: "nat \<Rightarrow> char" where
  "digit_char d = ''0123456789'' ! d"

fun str_nat :: "nat \<Rightarrow> string" where
  "str_nat n = (if n < 10 then [digit_char n] else str_nat (n div 10) @ [digit_char (n mod 10)])"

declare str_nat.simps [simp del]

definition str_int :: "int \<Rightarrow> string" where
  "str_int i = (if i < 0 then CHR ''-'' # str_nat (nat (- i)) else str_nat (nat i))"

text \<open>
  \<open>collections.Counter\<close>: the counts in the order in which the keys were first seen.
  \<open>most_common(1)[0][0]\<close> is the first key, in that order, whose count is maximal, and
  raises IndexError on an empty counter.
\<close>

type_synonym 'a counter = "('a \<times> nat) list"

fun tally_add :: "'a \<Rightarrow> 'a counter \<Rightarrow> 'a counter" where
  "tally_add x [] = [(x, 1)]"
| "tally_add x ((y, n) # c) = (if x = y then (y, n + 1) # c else (y, n) # tally_add x c)"

definition tally_update :: "'a list \<Rightarrow> 'a counter \<Rightarrow> 'a counter" where
  "tally_update xs c = fold tally_add xs c"

fun first_max :: "'a \<times> nat \<Rightarrow> ('a \<times> nat) list \<Rightarrow> 'a \<times> nat" where
  "first_max best [] = best"
| "first_max best (p # ps) = (if snd best < snd p then first_max p ps else first_max best ps)"

definition most_common1 :: "'a counter \<Rightarrow> py_error + 'a" where
  "most_common1 c = (case c of [] \<Rightarrow> Inl IndexError | p # ps \<Rightarrow> Inr (fst (first_max p ps)))"

text \<open>A list of results is a result: the first exception wins.\<close>

fun collect :: "('e + 'a) list \<Rightarrow> 'e + 'a list" where
  "collect [] = Inr []"
| "collect (x # xs) =
     (case x of
        Inl e \<Rightarrow> Inl e
      | Inr v \<Rightarrow> (case collect xs of Inl e \<Rightarrow> Inl e | Inr vs \<Rightarrow> Inr (v # vs)))"

section \<open>Sensor decoder and calibration: \<open>UsbReader\<close> (utils\_shared.py)\<close>

text \<open>
  The calibration file is modelled by what \<open>pickle.load\<close> makes of it: the pickled list
  of code lists (one list per piece kind; the empty dictionary that is written for a
  missing file iterates like the empty list), or a content that \<open>pickle.load\<close>
  rejects with an exception. \<open>None\<close> is the missing file.
\<close>

datatype calib_file = Corrupt | Pickled "int list list list"

record usb_reader =
  data_history_i :: int
  data_history :: "string option list"
  board_fen :: string
  needs_calibration :: bool
  default_missing_piece :: char
  code_mapping :: "string list \<rightharpoonup> char"
  calibration_mapping :: "char \<rightharpoonup> int list list"
  calibration_samples :: "string option list"
  calibration_data_history_i :: "int option"
  calibration_file :: "calib_file option"

definition data_history_depth :: int where
  "data_history_depth = 3"

definition calibration_samples_n :: nat where
  "calibration_samples_n = 15"

definition code_mapping_order :: "char list" where
  "code_mapping_order = ''prnbkqPRNBKQ''"

definition FEN_SPRITE_MAPPING_keys :: "char list" where
  "FEN_SPRITE_MAPPING_keys = ''bknpqrBKNPQR''"

definition start_board_fen :: string where
  "start_board_fen = ''rnbqkbnr/pppppppp/8/8/8/8/PPPPPPPP/RNBQKBNR''"

definition zero_code :: "string list" where
  "zero_code = [''0'', ''0'', ''0'', ''0'', ''0'']"

text \<open>\<open>cell_slice_mapping[cell]\<close> applied to a list: the slice \<open>[cell*5 : cell*5 + 5]\<close>.\<close>

definition cell_slice :: "nat \<Rightarrow> 'a list \<Rightarrow> 'a list" where
  "cell_slice cell xs = take 5 (drop (cell * 5) xs)"

definition cells :: "nat list" where
  "cells = [0..<64]"

text \<open>\<open>data[1:].split(' ')\<close>: the tokens of a frame, without its leading marker.\<close>

definition frame_tokens :: "string \<Rightarrow> string list" where
  "frame_tokens data = split_on CHR '' '' (drop 1 data)"

subsection \<open>\<open>load_piece_codes\<close>\<close>

definition add_variations ::
  "char \<Rightarrow> int list list \<Rightarrow> (string list \<rightharpoonup> char) \<Rightarrow> (string list \<rightharpoonup> char)" where
  "add_variations letter piece mapping =
     fold (\<lambda>piece_variation m. m(map str_int piece_variation \<mapsto> letter)) piece mapping"

definition load_piece_codes :: "usb_reader \<Rightarrow> py_error + usb_reader" where
  "load_piece_codes r =
     (let (r1, content) =
            (case calibration_file r of
               None \<Rightarrow> (r\<lparr>needs_calibration := True, calibration_file := Some (Pickled [])\<rparr>,
                         Pickled [])
             | Some c \<Rightarrow> (r, c))
      in case content of
           Corrupt \<Rightarrow> Inl UnpicklingError
         | Pickled data \<Rightarrow>
             let mapping = fold (\<lambda>(letter, piece) m. add_variations letter piece m)
                             (zip code_mapping_order data) Map.empty
             in Inr (r1\<lparr>code_mapping := mapping(zero_code \<mapsto> CHR ''.'')\<rparr>))"

definition ignore_missing :: "bool \<Rightarrow> usb_reader \<Rightarrow> usb_reader" where
  "ignore_missing ignore_missing_pieces r =
     r\<lparr>default_missing_piece := (if ignore_missing_pieces then CHR ''N'' else CHR ''.'')\<rparr>"

subsection \<open>\<open>__init__\<close>\<close>

definition empty_calibration_mapping :: "char \<rightharpoonup> int list list" where
  "empty_calibration_mapping = map_of (map (\<lambda>letter. (letter, [])) FEN_SPRITE_MAPPING_keys)"

definition UsbReader_init :: "calib_file option \<Rightarrow> py_error + usb_reader" where
  "UsbReader_init file =
     load_piece_codes
       \<lparr> data_history_i = - data_history_depth,
         data_history = replicate (nat data_history_depth) None,
         board_fen = start_board_fen,
         needs_calibration = False,
         default_missing_piece = CHR ''.'',
         code_mapping = Map.empty,
         calibration_mapping = empty_calibration_mapping,
         calibration_samples = [],
         calibration_data_history_i = None,
         calibration_file = file \<rparr>"

subsection \<open>\<open>data_to_fen\<close>\<close>

definition cell_symbol :: "usb_reader \<Rightarrow> nat \<Rightarrow> string list \<Rightarrow> char" where
  "cell_symbol r cell sample =
     (case code_mapping r (cell_slice cell sample) of
        Some s \<Rightarrow> s
      | None \<Rightarrow> default_missing_piece r)"

definition decode_cell :: "usb_reader \<Rightarrow> string list list \<Rightarrow> nat \<Rightarrow> py_error + char" where
  "decode_cell r dh cell = most_common1 (tally_update (map (cell_symbol r cell) dh) [])"

text \<open>The inner loop of the conversion to FEN, over the columns of one row.\<close>

fun fen_row :: "nat \<Rightarrow> char list \<Rightarrow> string" where
  "fen_row n_empty [] = (if 0 < n_empty then str_nat n_empty else [])"
| "fen_row n_empty (piece # ps) =
     (if piece = CHR ''.'' then fen_row (n_empty + 1) ps
      else (if 0 < n_empty then str_nat n_empty else []) @ piece # fen_row 0 ps)"

definition board_row :: "char list \<Rightarrow> nat \<Rightarrow> char list" where
  "board_row board row = map (\<lambda>col. board ! (row * 8 + col)) [0..<8]"

definition to_fen :: "char list \<Rightarrow> string" where
  "to_fen board =
     concat (map (\<lambda>row. fen_row 0 (board_row board row) @ (if row < 7 then ''/'' else []))
                 [0..<8])"

text \<open>
  The board of \<open>data_to_fen\<close>: one symbol per cell. A slot of the history that is still
  \<open>None\<close> raises TypeError at \<open>data[1:]\<close>.
\<close>

definition decode_board :: "usb_reader \<Rightarrow> py_error + char list" where
  "decode_board r =
     (case those (data_history r) of
        None \<Rightarrow> Inl TypeError
      | Some frames \<Rightarrow> collect (map (decode_cell r (map frame_tokens frames)) cells))"

definition data_to_fen :: "usb_reader \<Rightarrow> py_error + usb_reader" where
  "data_to_fen r =
     (case decode_board r of
        Inl e \<Rightarrow> Inl e
      | Inr board \<Rightarrow> Inr (r\<lparr>board_fen := to_fen board\<rparr>))"

subsection \<open>\<open>update\<close> and \<open>read_board\<close>\<close>

text \<open>
  The loop of \<open>update\<close> over the frames that \<open>get_nowait\<close> delivers before the queue
  is empty; \<open>changed\<close> is the loop's flag.
\<close>

fun drain :: "string list \<Rightarrow> usb_reader \<Rightarrow> bool \<Rightarrow> py_error + (usb_reader \<times> bool)" where
  "drain [] r changed = Inr (r, changed)"
| "drain (data # q) r changed =
     (case py_index (data_history r) (data_history_i r) of
        None \<Rightarrow> Inl IndexError
      | Some k \<Rightarrow>
          let differs = (data_history r ! k \<noteq> Some data);
              r1 = (if differs then r\<lparr>data_history := (data_history r)[k := Some data]\<rparr> else r);
              i1 = data_history_i r1 + 1;
              r2 = r1\<lparr>data_history_i := (if data_history_depth \<le> i1 then 0 else i1)\<rparr>
          in drain q r2 (changed \<or> differs))"

definition update :: "string list \<Rightarrow> usb_reader \<Rightarrow> py_error + usb_reader" where
  "update frames r =
     (case drain frames r False of
        Inl e \<Rightarrow> Inl e
      | Inr (r1, changed) \<Rightarrow>
          if changed \<and> 0 \<le> data_history_i r1 then data_to_fen r1 else Inr r1)"

definition read_board :: "bool \<Rightarrow> string list \<Rightarrow> usb_reader \<Rightarrow> py_error + (string \<times> usb_reader)" where
  "read_board rotate180 frames r =
     (case update frames r of
        Inl e \<Rightarrow> Inl e
      | Inr r1 \<Rightarrow> Inr (if rotate180 then rev (board_fen r1) else board_fen r1, r1))"

text \<open>A run of polls, each with the frames it drains; the boards read, in order.\<close>

fun read_boards ::
  "(bool \<times> string list) list \<Rightarrow> usb_reader \<Rightarrow> py_error + (string list \<times> usb_reader)" where
  "read_boards [] r = Inr ([], r)"
| "read_boards ((rotate180, frames) # polls) r =
     (case read_board rotate180 frames r of
        Inl e \<Rightarrow> Inl e
      | Inr (fen, r1) \<Rightarrow>
          (case read_boards polls r1 of
             Inl e \<Rightarrow> Inl e
           | Inr (fens, r2) \<Rightarrow> Inr (fen # fens, r2)))"

subsection \<open>\<open>do_calibration\<close>\<close>

text \<open>
  \<open>add_mapping\<close>: \<open>sum(code) and code not in calibration_mapping[key]\<close> looks the key
  up only when the sum is not zero.
\<close>

definition add_mapping ::
  "int list \<Rightarrow> (char \<rightharpoonup> int list list) \<Rightarrow> char \<times> nat \<Rightarrow> py_error + (char \<rightharpoonup> int list list)" where
  "add_mapping board_reading cm kc =
     (let key = fst kc; code = cell_slice (snd kc) board_reading
      in if sum_list code = 0 then Inr cm
         else case cm key of
                None \<Rightarrow> Inl KeyError
              | Some codes \<Rightarrow>
                  if code \<in> set codes then Inr cm else Inr (cm(key \<mapsto> codes @ [code])))"

text \<open>The calls of \<open>add_mapping\<close>, in the order of the source.\<close>

definition calibration_squares :: "(char \<times> nat) list" where
  "calibration_squares =
     concat (map (\<lambda>i. [(CHR ''p'', 8 + i), (CHR ''P'', 48 + i)]) [0..<8]) @
     [(CHR ''r'', 0), (CHR ''r'', 7), (CHR ''R'', 56), (CHR ''R'', 63),
      (CHR ''n'', 1), (CHR ''n'', 6), (CHR ''N'', 57), (CHR ''N'', 62),
      (CHR ''b'', 2), (CHR ''b'', 5), (CHR ''B'', 58), (CHR ''B'', 61),
      (CHR ''q'', 3), (CHR ''Q'', 59), (CHR ''q'', 19), (CHR ''Q'', 43),
      (CHR ''k'', 4), (CHR ''K'', 60)]"

fun add_mappings ::
  "int list \<Rightarrow> (char \<times> nat) list \<Rightarrow> (char \<rightharpoonup> int list list) \<Rightarrow> py_error + (char \<rightharpoonup> int list list)" where
  "add_mappings board_reading [] cm = Inr cm"
| "add_mappings board_reading (kc # kcs) cm =
     (case add_mapping board_reading cm kc of
        Inl e \<Rightarrow> Inl e
      | Inr cm1 \<Rightarrow> add_mappings board_reading kcs cm1)"

definition lookup_key :: "('k \<rightharpoonup> 'v) \<Rightarrow> 'k \<Rightarrow> py_error + 'v" where
  "lookup_key m k = (case m k of None \<Rightarrow> Inl KeyError | Some v \<Rightarrow> Inr v)"

text \<open>
  Step 1 of \<open>do_calibration\<close>: the most common code of every cell over the samples,
  concatenated, and read as integers. \<open>int_of\<close> is Python's \<open>int\<close> on a token
  (\<open>None\<close> where it raises ValueError); it is a parameter of the model.
\<close>

definition board_reading_of ::
  "(string \<Rightarrow> int option) \<Rightarrow> string option list \<Rightarrow> py_error + int list" where
  "board_reading_of int_of samples =
     (case those samples of
        None \<Rightarrow> Inl TypeError
      | Some frames \<Rightarrow>
          (case collect (map (\<lambda>cell. most_common1
                                (tally_update (map (cell_slice cell) (map frame_tokens frames)) []))
                             cells) of
             Inl e \<Rightarrow> Inl e
           | Inr most_common \<Rightarrow>
               (case those (map int_of (concat most_common)) of
                  None \<Rightarrow> Inl ValueError
                | Some board_reading \<Rightarrow> Inr board_reading)))"

definition do_calibration ::
  "(string \<Rightarrow> int option) \<Rightarrow> bool \<Rightarrow> usb_reader \<Rightarrow> py_error + usb_reader" where
  "do_calibration int_of new_setup r =
     (case board_reading_of int_of (calibration_samples r) of
        Inl e \<Rightarrow> Inl e
      | Inr board_reading \<Rightarrow>
          (case add_mappings board_reading calibration_squares
                  (if new_setup then empty_calibration_mapping else calibration_mapping r) of
             Inl e \<Rightarrow> Inl e
           | Inr cm \<Rightarrow>
               (case collect (map (lookup_key cm) code_mapping_order) of
                  Inl e \<Rightarrow> Inl e
                | Inr calibration_data \<Rightarrow>
                    Inr (r\<lparr>calibration_file := Some (Pickled calibration_data),
                           calibration_mapping := cm\<rparr>))))"

subsection \<open>\<open>calibration\<close>\<close>

text \<open>\<open>deque(maxlen=n).append\<close>: a full deque drops its oldest element.\<close>

definition deque_append :: "nat \<Rightarrow> 'a \<Rightarrow> 'a list \<Rightarrow> 'a list" where
  "deque_append n x xs = (let ys = xs @ [x] in drop (length ys - n) ys)"

definition calibration ::
  "(string \<Rightarrow> int option) \<Rightarrow> bool \<Rightarrow> usb_reader \<Rightarrow> py_error + (bool \<times> usb_reader)" where
  "calibration int_of new_setup r =
     (case (if 0 < data_history_i r \<and> calibration_data_history_i r \<noteq> Some (data_history_i r)
            then (case py_index (data_history r) (data_history_i r) of
                    None \<Rightarrow> Inl IndexError
                  | Some k \<Rightarrow>
                      Inr (r\<lparr>calibration_samples :=
                               deque_append calibration_samples_n (data_history r ! k)
                                 (calibration_samples r),
                             calibration_data_history_i := Some (data_history_i r)\<rparr>))
            else Inr r) of
        Inl e \<Rightarrow> Inl e
      | Inr r1 \<Rightarrow>
          if calibration_samples_n \<le> length (calibration_samples r1) then
            (case do_calibration int_of new_setup r1 of
               Inl e \<Rightarrow> Inl e
             | Inr r2 \<Rightarrow>
                 (case load_piece_codes
                         (r2\<lparr>needs_calibration := False, calibration_samples := [],
                             calibration_data_history_i := None\<rparr>) of
                    Inl e \<Rightarrow> Inl e
                  | Inr r3 \<Rightarrow>
                      (case data_to_fen r3 of
                         Inl e \<Rightarrow> Inl e
                       | Inr r4 \<Rightarrow> Inr (True, r4))))
          else Inr (False, r1))"

text \<open>
  A sequence of calibration passes: each pass runs \<open>do_calibration\<close> on the samples
  collected for it, in new-setup or add-piece mode.
\<close>

fun calibration_passes ::
  "(string \<Rightarrow> int option) \<Rightarrow> (bool \<times> string option list) list \<Rightarrow> usb_reader \<Rightarrow>
     py_error + usb_reader" where
  "calibration_passes int_of [] r = Inr r"
| "calibration_passes int_of ((new_setup, samples) # ps) r =
     (case do_calibration int_of new_setup (r\<lparr>calibration_samples := samples\<rparr>) of
        Inl e \<Rightarrow> Inl e
      | Inr r1 \<Rightarrow> calibration_passes int_of ps r1)"

text \<open>The value of a decimal digit; \<open>int(c)\<close> of another character raises ValueError.\<close>

definition digit_value :: "char \<Rightarrow> nat option" where
  "digit_value c =
     (if c \<in> set ''0123456789'' then Some (of_char c - 48) else None)"

text \<open>A decimal reading of tokens, for concrete runs: digits only.\<close>

fun dec_nat :: "nat \<Rightarrow> string \<Rightarrow> nat option" where
  "dec_nat acc [] = Some acc"
| "dec_nat acc (c # cs) =
     (case digit_value c of None \<Rightarrow> None | Some d \<Rightarrow> dec_nat (acc * 10 + d) cs)"

definition dec_int :: "string \<Rightarrow> int option" where
  "dec_int s = (if s = [] then None else map_option int (dec_nat 0 s))"



text \<open>A reader for concrete runs: two of its three frames agree on the first cell.\<close>

definition demo_reader :: usb_reader where
  "demo_reader =
     \<lparr> data_history_i = 0,
       data_history = [Some '':1 0 0 0 0'', Some '':7 7 7 7 7'', Some '':1 0 0 0 0''],
       board_fen = start_board_fen,
       needs_calibration = False,
       default_missing_piece = CHR ''.'',
       code_mapping = [[''1'', ''0'', ''0'', ''0'', ''0''] \<mapsto> CHR ''K'', zero_code \<mapsto> CHR ''.''],
       calibration_mapping = empty_calibration_mapping,
       calibration_samples = [],
       calibration_data_history_i = None,
       calibration_file = Some (Pickled []) \<rparr>"


section \<open>Serial transport: the read loop of \<open>_usbtool\<close> (utils\_shared.py)\<close>

text \<open>
  The state of the read loop: the line accumulated so far and the queue to the reader.
\<close>

record usbtool =
  message_from_board :: string
  queue_from_usbtool :: "string list"

text \<open>
  The loop \<open>while serial_port.inWaiting()\<close> over the characters waiting at the port.
  After a newline \<open>reset_input_buffer\<close> discards the characters that are still waiting,
  so the loop ends there.
\<close>

fun read_from_board :: "string \<Rightarrow> usbtool \<Rightarrow> usbtool" where
  "read_from_board [] u = u"
| "read_from_board (c # pending) u =
     (if c \<noteq> CHR 0x0A
      then read_from_board pending (u\<lparr>message_from_board := message_from_board u @ [c]\<rparr>)
      else
        let message = take (length (message_from_board u) - 2) (message_from_board u);
            u1 = (if length (split_on CHR '' '' message) = 320
                  then u\<lparr>queue_from_usbtool := queue_from_usbtool u @ [message]\<rparr>
                  else u)
        in u1\<lparr>message_from_board := []\<rparr>)"

text \<open>The rounds of the outer loop, each with the characters that wait at the port.\<close>

definition usbtool_reads :: "string list \<Rightarrow> usbtool \<Rightarrow> usbtool" where
  "usbtool_reads rounds u = fold read_from_board rounds u"

definition usbtool_start :: usbtool where
  "usbtool_start = \<lparr> message_from_board = [], queue_from_usbtool = [] \<rparr>"

text \<open>
  A poll in which no drained frame differs from the slot it replaces: the history stays as
  it is, and the frames are compared with its slots in ring order from slot \<open>k\<close>.
\<close>

fun no_frame_differs :: "string list \<Rightarrow> string option list \<Rightarrow> nat \<Rightarrow> bool" where
  "no_frame_differs [] h k = True"
| "no_frame_differs (data # q) h k =
     (h ! k = Some data \<and> no_frame_differs q h (if k + 1 \<ge> 3 then 0 else k + 1))"

text \<open>
  The ring of the history while it fills: the index runs from \<open>-3\<close> up to \<open>-1\<close>
  over the first three frames, and a slot that was written holds a frame.
\<close>

definition ring_ok :: "usb_reader \<Rightarrow> bool" where
  "ring_ok r =
     (\<exists>a b c. data_history r = [a, b, c] \<and>
        (data_history_i r = - 3 \<or>
         data_history_i r = - 2 \<and> a \<noteq> None \<or>
         data_history_i r = - 1 \<and> a \<noteq> None \<and> b \<noteq> None \<or>
         0 \<le> data_history_i r \<and> data_history_i r < 3 \<and> a \<noteq> None \<and> b \<noteq> None \<and> c \<noteq> None))"

text \<open>
  The invariant of the learned codes: within a piece's list no code occurs twice, and no
  code sums to zero.
\<close>

definition codes_ok :: "(char \<rightharpoonup> int list list) \<Rightarrow> bool" where
  "codes_ok cm = (\<forall>key codes. cm key = Some codes \<longrightarrow>
                    distinct codes \<and> (\<forall>code\<in>set codes. sum_list code \<noteq> 0))"

text \<open>The reader that \<open>__init__\<close> builds when there is no calibration file.\<close>

definition fresh_reader :: usb_reader where
  "fresh_reader =
     \<lparr> data_history_i = - 3,
       data_history = [None, None, None],
       board_fen = start_board_fen,
       needs_calibration = True,
       default_missing_piece = CHR ''.'',
       code_mapping = [zero_code \<mapsto> CHR ''.''],
       calibration_mapping = empty_calibration_mapping,
       calibration_samples = [],
       calibration_data_history_i = None,
       calibration_file = Some (Pickled []) \<rparr>"


section \<open>LED encoder: \<open>LedManager\<close> (utils\_shared.py)\<close>

text \<open>
  A message to \<open>set_leds\<close> is a Python string (the name of a pattern, a square or a
  move) or a list of squares.
\<close>

datatype message = Text string | Squares "string list"

definition COLUMNS_LETTERS :: "char list" where
  "COLUMNS_LETTERS = ''abcdefgh''"

definition COLUMNS_LETTERS_REVERSED :: "char list" where
  "COLUMNS_LETTERS_REVERSED = rev COLUMNS_LETTERS"

text \<open>\<open>tuple.index(x)\<close>: the first position of \<open>x\<close>; ValueError (\<open>None\<close>) when absent.\<close>

fun index_of :: "'a \<Rightarrow> 'a list \<Rightarrow> nat option" where
  "index_of x [] = None"
| "index_of x (y # ys) = (if x = y then Some 0 else map_option Suc (index_of x ys))"

text \<open>
  \<open>_square2certabo\<close>: the column is looked up first, then the row is read;
  \<open>square[0]\<close> and \<open>square[1]\<close> raise IndexError on a string that is too short.
\<close>

definition square2certabo :: "string \<Rightarrow> bool \<Rightarrow> py_error + (int \<times> int)" where
  "square2certabo square rotate180 =
     (case square of
        [] \<Rightarrow> Inl IndexError
      | c0 # rest \<Rightarrow>
          (case index_of c0 (if rotate180 then COLUMNS_LETTERS_REVERSED else COLUMNS_LETTERS) of
             None \<Rightarrow> Inl ValueError
           | Some col \<Rightarrow>
               (case rest of
                  [] \<Rightarrow> Inl IndexError
                | c1 # _ \<Rightarrow>
                    (case digit_value c1 of
                       None \<Rightarrow> Inl ValueError
                     | Some d \<Rightarrow>
                         let row = (if rotate180 then 9 - int d else int d)
                         in Inr (8 - row, 2 ^ col)))))"

text \<open>
  The loop \<open>for row, col in led_positions: leds[row] += col\<close>. The positions are
  computed one by one as the loop asks for them.
\<close>

fun light :: "bool \<Rightarrow> string list \<Rightarrow> int list \<Rightarrow> py_error + int list" where
  "light rotate180 [] leds = Inr leds"
| "light rotate180 (square # squares) leds =
     (case square2certabo square rotate180 of
        Inl e \<Rightarrow> Inl e
      | Inr (row, col) \<Rightarrow>
          (case py_index leds row of
             None \<Rightarrow> Inl IndexError
           | Some k \<Rightarrow> light rotate180 squares (leds[k := leds ! k + col])))"

text \<open>
  \<open>squares2led\<close>. A string shorter than 4 is one square, a longer one a move whose
  squares are \<open>squares[0:2]\<close> and \<open>squares[2:4]\<close>; a list of one square is taken as
  it is, any other list through \<open>set(squares)\<close>, which drops repeated squares (the order
  of a set does not matter to the sums).
\<close>

definition squares2led :: "message \<Rightarrow> bool \<Rightarrow> py_error + int list" where
  "squares2led squares rotate180 =
     (case squares of
        Text s \<Rightarrow>
          if length s < 4 then light rotate180 [s] (replicate 8 0)
          else light rotate180 [take 2 s, take 2 (drop 2 s)] (replicate 8 0)
      | Squares sqs \<Rightarrow>
          if length sqs = 1 then light rotate180 [hd sqs] (replicate 8 0)
          else light rotate180 (remdups sqs) (replicate 8 0))"

text \<open>
  The table of \<open>__init__\<close>. Two of its entries are computed by \<open>squares2led\<close>; if that
  raised, so would \<open>__init__\<close> (it does not: \<open>default_messages_table\<close> below).
\<close>

definition default_messages :: "string \<rightharpoonup> int list" where
  "default_messages =
     (case (squares2led (Squares [''a1'', ''a8'', ''h1'', ''h8'']) False,
            squares2led (Squares [''d4'', ''e4'', ''d5'', ''e5'']) False) of
        (Inr corners, Inr thinking) \<Rightarrow>
          [''all'' \<mapsto> replicate 8 255,
           ''none'' \<mapsto> replicate 8 0,
           ''start'' \<mapsto> [255, 255, 0, 0, 0, 0, 255, 255],
           ''error'' \<mapsto> [0, 0, 0, 24, 24, 0, 0, 0],
           ''corners'' \<mapsto> corners,
           ''thinking'' \<mapsto> thinking,
           ''setup'' \<mapsto> [255, 255, 8, 0, 0, 8, 255, 255]]
      | _ \<Rightarrow> Map.empty)"

text \<open>
  The state of a \<open>LedManager\<close>: the last message, the queue to the transport, and the
  state of flashing. The clock of \<open>time.time()\<close> is read in seconds.
\<close>

record led_manager =
  last_message :: "message option"
  queue_to_usbtool :: "nat list list"
  last_flash_message :: "message option"
  flash_clock :: "real option"
  counter :: nat


definition LedManager_init :: "nat list list \<Rightarrow> led_manager" where
  "LedManager_init queue =
     \<lparr> last_message = None, queue_to_usbtool = queue, last_flash_message = None,
       flash_clock = None, counter = 0 \<rparr>"

text \<open>\<open>bytes(message)\<close>: a value outside \<open>range(256)\<close> raises ValueError.\<close>

definition py_bytes :: "int list \<Rightarrow> py_error + nat list" where
  "py_bytes xs = (if \<forall>x\<in>set xs. 0 \<le> x \<and> x < 256 then Inr (map nat xs) else Inl ValueError)"

text \<open>
  The \<open>try\<close> block of \<open>set_leds\<close>: a string is looked up in the table (KeyError when
  absent), a list cannot be looked up at all (TypeError); both exceptions lead to
  \<open>squares2led\<close>.
\<close>

definition led_frame :: "message \<Rightarrow> bool \<Rightarrow> py_error + int list" where
  "led_frame message rotate180 =
     (case message of
        Text s \<Rightarrow>
          (case default_messages s of
             Some leds \<Rightarrow> Inr leds
           | None \<Rightarrow> squares2led message rotate180)
      | Squares _ \<Rightarrow> squares2led message rotate180)"

definition set_leds :: "message \<Rightarrow> bool \<Rightarrow> led_manager \<Rightarrow> py_error + led_manager" where
  "set_leds message rotate180 lm =
     (if Some message \<noteq> last_message lm then
        (case led_frame message rotate180 of
           Inl e \<Rightarrow> Inl e
         | Inr leds \<Rightarrow>
             (case py_bytes leds of
                Inl e \<Rightarrow> Inl e
              | Inr data \<Rightarrow>
                  Inr (lm\<lparr>last_message := Some message,
                         queue_to_usbtool := queue_to_usbtool lm @ [data]\<rparr>)))
      else Inr lm)"


subsection \<open>The squares of a request\<close>

text \<open>
  An algebraic square is a file letter and a rank digit. Row 0 of the frame is rank 8 and
  bit 0 is file a; with the board turned by 180 degrees, row 0 is rank 1 and bit 0 is file h.
\<close>

definition algebraic :: "string \<Rightarrow> bool" where
  "algebraic sq = (length sq = 2 \<and> sq ! 0 \<in> set ''abcdefgh'' \<and> sq ! 1 \<in> set ''12345678'')"

definition file_no :: "string \<Rightarrow> nat" where
  "file_no sq = of_char (sq ! 0) - 97"

definition rank_no :: "string \<Rightarrow> nat" where
  "rank_no sq = of_char (sq ! 1) - 48"

definition led_row :: "bool \<Rightarrow> string \<Rightarrow> nat" where
  "led_row rotate180 sq = (if rotate180 then rank_no sq - 1 else 8 - rank_no sq)"

definition led_col :: "bool \<Rightarrow> string \<Rightarrow> nat" where
  "led_col rotate180 sq = (if rotate180 then 7 - file_no sq else file_no sq)"

definition frame_lights :: "int list \<Rightarrow> string set \<Rightarrow> bool \<Rightarrow> bool" where
  "frame_lights leds S rotate180 =
     (length leds = 8 \<and>
      (\<forall>r<8. 0 \<le> leds ! r \<and> leds ! r \<le> 255 \<and>
         (\<forall>c. bit (leds ! r) c = (\<exists>sq\<in>S. led_row rotate180 sq = r \<and> led_col rotate180 sq = c))))"

text \<open>
  The requests for squares: a non-empty list of algebraic squares, a square, or a move from
  one square to another; and the squares they ask to light.
\<close>

fun square_request :: "message \<Rightarrow> bool" where
  "square_request (Squares sqs) = (sqs \<noteq> [] \<and> (\<forall>sq\<in>set sqs. algebraic sq))"
| "square_request (Text s) =
     (algebraic s \<or>
      length s = 4 \<and> algebraic (take 2 s) \<and> algebraic (drop 2 s) \<and> take 2 s \<noteq> drop 2 s)"

fun requested :: "message \<Rightarrow> string set" where
  "requested (Squares sqs) = set sqs"
| "requested (Text s) = (if length s < 4 then {s} else {take 2 s, drop 2 s})"


section \<open>Gesture protocol: \<open>PicoChess\<close> (utils.py)\<close>

subsection \<open>Strings and rows\<close>








subsection \<open>State\<close>

text \<open>
  The two keys of \<open>exit_command\<close>, which are the values of the argument \<open>type\<close> that the callers
  pass.
\<close>

datatype exit_type = Application | Game

record picochess =
  led_manager :: led_manager
  pico_on :: bool
  wait_between_commands :: int
  last_command_time :: int
  last_exit_command_time :: int
  exit_command :: "exit_type \<Rightarrow> bool"
  start_game :: bool
  can_calibrate :: bool



text \<open>
  The field \<open>flip_board\<close> is the key \<open>'rotate180'\<close> of the dictionary.

  The operations of the rule engine's board that the game and thinking windows call:
  \<open>fen()\<close>, \<open>board_fen()\<close>, \<open>king(color)\<close> (\<open>None\<close> without such a king) and the
  board after \<open>remove_piece_at(square)\<close> on a copy.
\<close>

record ('b, 'sq) board_ops =
  fen :: "'b \<Rightarrow> string"
  placement :: "'b \<Rightarrow> string"
  king :: "'b \<Rightarrow> nat \<Rightarrow> 'sq option"
  remove_piece_at :: "'b \<Rightarrow> 'sq \<Rightarrow> 'b"

subsection \<open>\<open>check_exit\<close>\<close>




subsection \<open>\<open>home_window\<close>\<close>






subsection \<open>\<open>thinking_window\<close> and \<open>game_window\<close>\<close>





subsection \<open>\<open>new_game_window\<close>\<close>
















subsection \<open>\<open>update\<close>\<close>














section \<open>Theorems: move inference\<close>

lemma split_ws_acc_no_space:
  "\<forall>c\<in>set s. \<not> is_space c \<Longrightarrow> cur @ s \<noteq> [] \<Longrightarrow> split_ws_acc cur s = [cur @ s]"
  by (induction s arbitrary: cur) auto

lemma split_ws_field: "f \<noteq> [] \<Longrightarrow> \<forall>c\<in>set f. \<not> is_space c \<Longrightarrow> split_ws f = [f]"
  using split_ws_acc_no_space [of f "[]"] by (simp add: split_ws_def)

lemma single_move_loop_find:
  "single_move_loop E b f ms = find (reproduces1 E b f) ms"
  by (induction ms) (auto simp: reproduces1_def)

lemma reply_loop_find:
  "reply_loop E b1 f ms = find (\<lambda>m2. chess_board_fen E (push E b1 m2) = f) ms"
  by (induction ms) auto

lemma find_append:
  "find P (xs @ ys) = (case find P xs of Some x \<Rightarrow> Some x | None \<Rightarrow> find P ys)"
  by (induction xs) auto

lemma find_map_Pair:
  "find (reproduces2 E b f) (map (Pair m) ms) =
     map_option (Pair m) (find (\<lambda>m2. chess_board_fen E (push E (push E b m) m2) = f) ms)"
  by (induction ms) (auto simp: reproduces2_def)

lemma double_move_loop_find:
  "double_move_loop E b f ms =
     find (reproduces2 E b f)
       (concat (map (\<lambda>m. map (Pair m) (generate_legal_moves E (push E b m))) ms))"
  by (induction ms)
     (auto simp: Let_def find_append find_map_Pair reply_loop_find split: option.splits)

lemma find_None_set: "(find P xs = None) = (\<forall>x\<in>set xs. \<not> P x)"
  by (induction xs) auto

text \<open>
  C1. For a physical board field \<open>F\<close> (a non-empty string without whitespace, so that
  \<open>fen.split()[0]\<close> is \<open>F\<close>): \<open>get_moves\<close> returns the empty list when the
  board's field is \<open>F\<close>, whatever the engine generates; otherwise the one-element list
  of the first legal move, in generation order, that reproduces \<open>F\<close>; otherwise the
  two-element list of the first legal two-ply sequence that reproduces \<open>F\<close>; and, the
  fields being different, it raises InvalidMove exactly when no one- or two-ply legal sequence
  reproduces \<open>F\<close>.
\<close>

theorem get_moves_contract:
  assumes "F \<noteq> []" and "\<forall>c\<in>set F. \<not> is_space c"
  shows "get_moves E B F =
           (if chess_board_fen E B = F then Inr []
            else case find (reproduces1 E B F) (generate_legal_moves E B) of
                   Some m \<Rightarrow> Inr [uci E m]
                 | None \<Rightarrow>
                     (case find (reproduces2 E B F) (two_ply_sequences E B) of
                        Some (m1, m2) \<Rightarrow> Inr [uci E m1, uci E m2]
                      | None \<Rightarrow> Inl InvalidMove))
         \<and> ((get_moves E B F = Inl InvalidMove) =
              (chess_board_fen E B \<noteq> F \<and>
               (\<forall>m\<in>set (generate_legal_moves E B). \<not> reproduces1 E B F m) \<and>
               (\<forall>p\<in>set (two_ply_sequences E B). \<not> reproduces2 E B F p)))"
proof -
  have sp: "split_ws F = [F]" using assms by (rule split_ws_field)
  have main: "get_moves E B F =
           (if chess_board_fen E B = F then Inr []
            else case find (reproduces1 E B F) (generate_legal_moves E B) of
                   Some m \<Rightarrow> Inr [uci E m]
                 | None \<Rightarrow>
                     (case find (reproduces2 E B F) (two_ply_sequences E B) of
                        Some (m1, m2) \<Rightarrow> Inr [uci E m1, uci E m2]
                      | None \<Rightarrow> Inl InvalidMove))"
    unfolding get_moves_def sp single_move_loop_find double_move_loop_find
      two_ply_sequences_def Let_def
    by simp
  have "(get_moves E B F = Inl InvalidMove) =
           (chess_board_fen E B \<noteq> F \<and>
            (\<forall>m\<in>set (generate_legal_moves E B). \<not> reproduces1 E B F m) \<and>
            (\<forall>p\<in>set (two_ply_sequences E B). \<not> reproduces2 E B F p))"
    unfolding main find_None_set [symmetric]
    by (auto split: option.splits)
  with main show ?thesis by (rule conjI)
qed

theorem get_moves_contract_witness:
  "get_moves toy_engine ''k'' ''kab'' = Inr [''a'', ''b'']
   \<and> get_moves toy_engine ''k'' ''ka'' = Inr [''a'']
   \<and> get_moves toy_engine ''k'' ''k'' = Inr []
   \<and> get_moves toy_engine ''k'' ''kz'' = Inl InvalidMove"
proof -
  have ns: "\<And>F. set F \<subseteq> set ''abkz'' \<Longrightarrow> \<forall>c\<in>set F. \<not> is_space c"
    by (auto simp: is_space_def)
  have a: "get_moves toy_engine ''k'' ''kab'' = Inr [''a'', ''b'']"
    using get_moves_contract [of "''kab''" toy_engine "''k''"] ns [of "''kab''"]
    by (simp add: toy_engine_def reproduces1_def reproduces2_def two_ply_sequences_def)
  have b: "get_moves toy_engine ''k'' ''ka'' = Inr [''a'']"
    using get_moves_contract [of "''ka''" toy_engine "''k''"] ns [of "''ka''"]
    by (simp add: toy_engine_def reproduces1_def reproduces2_def two_ply_sequences_def)
  have c: "get_moves toy_engine ''k'' ''k'' = Inr []"
    using get_moves_contract [of "''k''" toy_engine "''k''"] ns [of "''k''"]
    by (simp add: toy_engine_def)
  have d: "get_moves toy_engine ''k'' ''kz'' = Inl InvalidMove"
    using get_moves_contract [of "''kz''" toy_engine "''k''"] ns [of "''kz''"]
    by (simp add: toy_engine_def reproduces1_def reproduces2_def two_ply_sequences_def)
  from a b c d show ?thesis by simp
qed

section \<open>Theorems: majority vote and FEN assembly\<close>

lemma maj3: "most_common1 (tally_update [a, b, c] []) = Inr (if a = b \<or> a = c then a else if b = c then b else a)"
  by (simp add: tally_update_def most_common1_def)

lemma collect_map_Inr: "(\<forall>x\<in>set xs. f x = Inr (g x)) \<Longrightarrow> collect (map f xs) = Inr (map g xs)"
  by (induction xs) auto












lemma decode_board_three:
  assumes "data_history r = [Some d0, Some d1, Some d2]"
  shows "decode_board r =
           Inr (map (\<lambda>cell. let a = cell_symbol r cell (frame_tokens d0);
                                 b = cell_symbol r cell (frame_tokens d1);
                                 c = cell_symbol r cell (frame_tokens d2)
                             in if a = b \<or> a = c then a else if b = c then b else a) cells)"
  unfolding decode_board_def assms
  by (simp add: decode_cell_def maj3 collect_map_Inr Let_def)









section \<open>Theorems: frames from the serial line\<close>

lemma read_from_board_app:
  "\<forall>c\<in>set line. c \<noteq> CHR 0x0A \<Longrightarrow>
   read_from_board (line @ xs) u =
     read_from_board xs (u\<lparr>message_from_board := message_from_board u @ line\<rparr>)"
  by (induction line arbitrary: u) auto

lemma read_from_board_line:
  assumes "\<forall>c\<in>set line. c \<noteq> CHR 0x0A"
  shows "read_from_board (line @ CHR 0x0A # rest) u =
           (let received = message_from_board u @ line;
                message = take (length received - 2) received
            in \<lparr> message_from_board = [],
                 queue_from_usbtool =
                   (if length (split_on CHR '' '' message) = 320
                    then queue_from_usbtool u @ [message] else queue_from_usbtool u) \<rparr>)"
  unfolding read_from_board_app [OF assms]
  by (simp add: Let_def del: take_append)

lemma read_from_board_queue:
  "\<forall>f\<in>set (queue_from_usbtool u). length (split_on CHR '' '' f) = 320 \<Longrightarrow>
   \<forall>f\<in>set (queue_from_usbtool (read_from_board pending u)). length (split_on CHR '' '' f) = 320"
proof (induction pending arbitrary: u)
  case Nil
  then show ?case by simp
next
  case (Cons c pending)
  show ?case
  proof (cases "c = CHR 0x0A")
    case True
    then show ?thesis using Cons.prems by (auto simp: Let_def)
  next
    case False
    then show ?thesis
      using Cons.IH [of "u\<lparr>message_from_board := message_from_board u @ [c]\<rparr>"] Cons.prems
      by simp
  qed
qed

lemma usbtool_reads_queue:
  "\<forall>f\<in>set (queue_from_usbtool u). length (split_on CHR '' '' f) = 320 \<Longrightarrow>
   \<forall>f\<in>set (queue_from_usbtool (usbtool_reads rounds u)). length (split_on CHR '' '' f) = 320"
  unfolding usbtool_reads_def
proof (induction rounds arbitrary: u)
  case Nil then show ?case by simp
next
  case (Cons p rounds)
  show ?case using Cons.IH [OF read_from_board_queue [OF Cons.prems]] by simp
qed

lemma length_split_on_acc:
  "length (split_on_acc sep cur s) = Suc (length (filter (\<lambda>c. c = sep) s))"
  by (induction s arbitrary: cur) auto

lemma drain_same:
  assumes "py_index (data_history r) (data_history_i r) = Some k"
      and "data_history r ! k = Some data"
  shows "drain [data] r ch =
           Inr (r\<lparr>data_history_i := (if data_history_depth \<le> data_history_i r + 1 then 0
                                        else data_history_i r + 1)\<rparr>, ch)"
  using assms by (simp add: Let_def)

text \<open>
  C3. A line is put on the queue to the reader only if, without its last two characters, it
  splits at spaces into exactly 320 tokens; any other line is dropped, and in both cases the
  line buffer is reset. Hence every frame on the queue has 320 tokens, and a dropped line
  gives the reader nothing to drain: a poll without frames leaves the reader as it is. A
  frame equal to the slot of the history it would replace leaves the history and the
  \<open>changed\<close> flag as they are (only the ring index advances), and a poll with only such
  a frame recomputes nothing.
\<close>

theorem usbtool_frame_filter:
  "(\<forall>line rest u. (\<forall>c\<in>set line. c \<noteq> CHR 0x0A) \<longrightarrow>
      read_from_board (line @ CHR 0x0A # rest) u =
        (let received = message_from_board u @ line;
             message = take (length received - 2) received
         in \<lparr> message_from_board = [],
              queue_from_usbtool =
                (if length (split_on CHR '' '' message) = 320
                 then queue_from_usbtool u @ [message] else queue_from_usbtool u) \<rparr>))
   \<and> (\<forall>rounds. \<forall>f\<in>set (queue_from_usbtool (usbtool_reads rounds usbtool_start)).
          length (split_on CHR '' '' f) = 320)
   \<and> (\<forall>r. update [] r = Inr r)
   \<and> (\<forall>r k data ch. py_index (data_history r) (data_history_i r) = Some k \<and>
          data_history r ! k = Some data \<longrightarrow>
          (\<exists>i. drain [data] r ch = Inr (r\<lparr>data_history_i := i\<rparr>, ch) \<and>
               update [data] r = Inr (r\<lparr>data_history_i := i\<rparr>)))"
proof (intro conjI allI impI)
  fix line rest u assume "\<forall>c\<in>set line. c \<noteq> CHR 0x0A"
  then show "read_from_board (line @ CHR 0x0A # rest) u =
        (let received = message_from_board u @ line;
             message = take (length received - 2) received
         in \<lparr> message_from_board = [],
              queue_from_usbtool =
                (if length (split_on CHR '' '' message) = 320
                 then queue_from_usbtool u @ [message] else queue_from_usbtool u) \<rparr>)"
    by (rule read_from_board_line)
next
  fix rounds
  show "\<forall>f\<in>set (queue_from_usbtool (usbtool_reads rounds usbtool_start)).
          length (split_on CHR '' '' f) = 320"
    by (rule usbtool_reads_queue) (simp add: usbtool_start_def)
next
  fix r :: usb_reader show "update [] r = Inr r" by (simp add: update_def)
next
  fix r :: usb_reader and k data ch
  assume a: "py_index (data_history r) (data_history_i r) = Some k \<and> data_history r ! k = Some data"
  then have d: "\<And>ch. drain [data] r ch =
           Inr (r\<lparr>data_history_i := (if data_history_depth \<le> data_history_i r + 1 then 0
                                        else data_history_i r + 1)\<rparr>, ch)"
    using drain_same by blast
  show "\<exists>i. drain [data] r ch = Inr (r\<lparr>data_history_i := i\<rparr>, ch) \<and>
               update [data] r = Inr (r\<lparr>data_history_i := i\<rparr>)"
    unfolding update_def d by auto
qed

theorem usbtool_frame_filter_witness:
  "read_from_board (''12 34'' @ [CHR 0x0D, CHR 0x0A]) usbtool_start =
     \<lparr> message_from_board = [], queue_from_usbtool = [] \<rparr>
   \<and> read_from_board (replicate 319 CHR '' '' @ [CHR '' '', CHR 0x0D, CHR 0x0A]) usbtool_start =
     \<lparr> message_from_board = [], queue_from_usbtool = [replicate 319 CHR '' ''] \<rparr>
   \<and> (\<exists>i. update ['':1 0 0 0 0''] demo_reader = Inr (demo_reader\<lparr>data_history_i := i\<rparr>))"
proof -
  note t = usbtool_frame_filter
  have l: "\<And>line u. (\<forall>c\<in>set line. c \<noteq> CHR 0x0A) \<Longrightarrow>
      read_from_board (line @ CHR 0x0A # []) u =
        (let received = message_from_board u @ line;
             message = take (length received - 2) received
         in \<lparr> message_from_board = [],
              queue_from_usbtool =
                (if length (split_on CHR '' '' message) = 320
                 then queue_from_usbtool u @ [message] else queue_from_usbtool u) \<rparr>)"
    using t by blast
  have a: "read_from_board (''12 34'' @ [CHR 0x0D, CHR 0x0A]) usbtool_start =
     \<lparr> message_from_board = [], queue_from_usbtool = [] \<rparr>"
    using l [of "''12 34'' @ [CHR 0x0D]" usbtool_start]
    by (simp add: usbtool_start_def split_on_def)
  have n: "length (split_on CHR '' '' (replicate 319 CHR '' '')) = 320"
    by (simp add: split_on_def length_split_on_acc)
  have b: "read_from_board (replicate 319 CHR '' '' @ [CHR '' '', CHR 0x0D, CHR 0x0A]) usbtool_start =
     \<lparr> message_from_board = [], queue_from_usbtool = [replicate 319 CHR '' ''] \<rparr>"
    using l [of "replicate 319 CHR '' '' @ [CHR '' '', CHR 0x0D]" usbtool_start] n
    by (simp add: usbtool_start_def)
  have k: "py_index (data_history demo_reader) (data_history_i demo_reader) = Some 0 \<and>
           data_history demo_reader ! 0 = Some '':1 0 0 0 0''"
    by (simp add: demo_reader_def py_index_def)
  have c: "\<exists>i. update ['':1 0 0 0 0''] demo_reader = Inr (demo_reader\<lparr>data_history_i := i\<rparr>)"
    using t k by blast
  from a b c show ?thesis by blast
qed


section \<open>Theorems: loading the calibration file\<close>




section \<open>Theorems: calibration passes\<close>

lemma sum_list_zeros: "\<forall>x\<in>set (code :: int list). x = 0 \<Longrightarrow> sum_list code = 0"
  by (induction code) auto

lemma add_mapping_zero:
  "\<forall>x\<in>set (cell_slice cell br). x = 0 \<Longrightarrow> add_mapping br cm (key, cell) = Inr cm"
  by (simp add: add_mapping_def sum_list_zeros)

lemma add_mapping_present:
  "cm key = Some codes \<Longrightarrow> cell_slice cell br \<in> set codes \<Longrightarrow> add_mapping br cm (key, cell) = Inr cm"
  by (simp add: add_mapping_def Let_def)

lemma add_mapping_ok:
  assumes "codes_ok cm" and "add_mapping br cm kc = Inr cm'"
  shows "codes_ok cm'"
  using assms
  by (auto simp: add_mapping_def codes_ok_def Let_def split: if_splits option.splits)

lemma add_mappings_ok:
  "codes_ok cm \<Longrightarrow> add_mappings br kcs cm = Inr cm' \<Longrightarrow> codes_ok cm'"
proof (induction kcs arbitrary: cm)
  case Nil
  then show ?case by simp
next
  case (Cons kc kcs)
  from Cons.prems(2) obtain cm1 where
    s: "add_mapping br cm kc = Inr cm1" "add_mappings br kcs cm1 = Inr cm'"
    by (auto split: sum.splits)
  from Cons.IH [OF add_mapping_ok [OF Cons.prems(1) s(1)] s(2)] show ?case .
qed

lemma codes_ok_empty: "codes_ok empty_calibration_mapping"
  by (auto simp: codes_ok_def empty_calibration_mapping_def FEN_SPRITE_MAPPING_keys_def
           split: if_splits)

lemma do_calibration_ok:
  assumes "codes_ok (calibration_mapping r)" and "do_calibration int_of new_setup r = Inr r'"
  shows "codes_ok (calibration_mapping r')"
proof -
  from assms(2) obtain br cm where
    a: "add_mappings br calibration_squares
          (if new_setup then empty_calibration_mapping else calibration_mapping r) = Inr cm"
    and c: "calibration_mapping r' = cm"
    by (auto simp: do_calibration_def split: sum.splits)
  have "codes_ok (if new_setup then empty_calibration_mapping else calibration_mapping r)"
    using assms(1) codes_ok_empty by simp
  from add_mappings_ok [OF this a] c show ?thesis by simp
qed

lemma calibration_passes_ok:
  "codes_ok (calibration_mapping r) \<Longrightarrow> calibration_passes int_of ps r = Inr r' \<Longrightarrow>
   codes_ok (calibration_mapping r')"
proof (induction ps arbitrary: r)
  case Nil
  then show ?case by simp
next
  case (Cons p ps)
  obtain new_setup samples where p: "p = (new_setup, samples)" by (cases p)
  from Cons.prems(2) obtain r1 where
    s: "do_calibration int_of new_setup (r\<lparr>calibration_samples := samples\<rparr>) = Inr r1"
       "calibration_passes int_of ps r1 = Inr r'"
    unfolding p by (auto split: sum.splits)
  have "codes_ok (calibration_mapping (r\<lparr>calibration_samples := samples\<rparr>))"
    using Cons.prems(1) by simp
  from Cons.IH [OF do_calibration_ok [OF this s(1)] s(2)] show ?case .
qed

lemma UsbReader_init_mapping:
  "UsbReader_init cfile = Inr r0 \<Longrightarrow> calibration_mapping r0 = empty_calibration_mapping"
  by (auto simp: UsbReader_init_def load_piece_codes_def Let_def
           split: option.splits calib_file.splits)

lemma sum_list_nonzero: "sum_list (code :: int list) \<noteq> 0 \<Longrightarrow> \<exists>x\<in>set code. x \<noteq> 0"
  by (induction code) auto

lemma UsbReader_init_missing: "UsbReader_init None = Inr fresh_reader"
  by (simp add: UsbReader_init_def load_piece_codes_def fresh_reader_def data_history_depth_def
        numeral_3_eq_3)

text \<open>
  C5. In a calibration pass, a code that is all zeros is never appended to a piece's list,
  and a code that the piece's list already holds is not appended again. Hence, after any
  sequence of calibration passes from construction, in new-setup or add-piece mode and on any
  samples, every recorded code has a non-zero entry (its sum is not zero) and occurs once in
  its piece's list.
\<close>

theorem calibration_codes_nonzero_distinct:
  "(\<forall>br cm key cell. (\<forall>x\<in>set (cell_slice cell br). x = 0) \<longrightarrow>
       add_mapping br cm (key, cell) = Inr cm)
   \<and> (\<forall>br cm key cell codes. cm key = Some codes \<and> cell_slice cell br \<in> set codes \<longrightarrow>
       add_mapping br cm (key, cell) = Inr cm)
   \<and> (\<forall>int_of passes cfile r0 r.
         UsbReader_init cfile = Inr r0 \<and> calibration_passes int_of passes r0 = Inr r \<longrightarrow>
         (\<forall>key codes. calibration_mapping r key = Some codes \<longrightarrow>
            distinct codes \<and> (\<forall>code\<in>set codes. sum_list code \<noteq> 0 \<and> (\<exists>x\<in>set code. x \<noteq> 0))))"
proof -
  have z: "\<forall>br cm key cell. (\<forall>x\<in>set (cell_slice cell br). x = 0) \<longrightarrow>
       add_mapping br cm (key, cell) = Inr cm"
    using add_mapping_zero by blast
  have d: "\<forall>br cm key cell codes. cm key = Some codes \<and> cell_slice cell br \<in> set codes \<longrightarrow>
       add_mapping br cm (key, cell) = Inr cm"
    using add_mapping_present by blast
  have i: "distinct codes \<and> (\<forall>code\<in>set codes. sum_list code \<noteq> 0 \<and> (\<exists>x\<in>set code. x \<noteq> 0))"
    if a: "UsbReader_init cfile = Inr r0 \<and> calibration_passes int_of passes r0 = Inr r"
    and k: "calibration_mapping r key = Some codes"
    for int_of passes cfile r0 r key codes
  proof -
    have "codes_ok (calibration_mapping r0)"
      using a UsbReader_init_mapping [of cfile r0] codes_ok_empty by auto
    then have "codes_ok (calibration_mapping r)" using a calibration_passes_ok by blast
    then have "distinct codes" "\<forall>code\<in>set codes. sum_list code \<noteq> 0"
      using k unfolding codes_ok_def by blast+
    then show ?thesis using sum_list_nonzero by blast
  qed
  have i': "\<forall>int_of passes cfile r0 r.
         UsbReader_init cfile = Inr r0 \<and> calibration_passes int_of passes r0 = Inr r \<longrightarrow>
         (\<forall>key codes. calibration_mapping r key = Some codes \<longrightarrow>
            distinct codes \<and> (\<forall>code\<in>set codes. sum_list code \<noteq> 0 \<and> (\<exists>x\<in>set code. x \<noteq> 0)))"
    using i by (intro allI impI)
  from z d i' show ?thesis by (intro conjI)
qed

lemma br: "board_reading_of dec_int [Some '':1 2 3 4 5''] = Inr [1,2,3,4,5]"
  by code_simp

lemma squares_eq: "calibration_squares =
  [(CHR ''p'', 8), (CHR ''P'', 48), (CHR ''p'', 9), (CHR ''P'', 49), (CHR ''p'', 10), (CHR ''P'', 50),
   (CHR ''p'', 11), (CHR ''P'', 51), (CHR ''p'', 12), (CHR ''P'', 52), (CHR ''p'', 13), (CHR ''P'', 53),
   (CHR ''p'', 14), (CHR ''P'', 54), (CHR ''p'', 15), (CHR ''P'', 55),
      (CHR ''r'', 0), (CHR ''r'', 7), (CHR ''R'', 56), (CHR ''R'', 63),
      (CHR ''n'', 1), (CHR ''n'', 6), (CHR ''N'', 57), (CHR ''N'', 62),
      (CHR ''b'', 2), (CHR ''b'', 5), (CHR ''B'', 58), (CHR ''B'', 61),
      (CHR ''q'', 3), (CHR ''Q'', 59), (CHR ''q'', 19), (CHR ''Q'', 43),
      (CHR ''k'', 4), (CHR ''K'', 60)]"
  by (simp add: calibration_squares_def upt_rec)

lemma am: "add_mappings [1,2,3,4,5] calibration_squares empty_calibration_mapping =
             Inr (empty_calibration_mapping(CHR ''r'' \<mapsto> [[1,2,3,4,5]]))"
  unfolding squares_eq
  by (simp add: add_mapping_def cell_slice_def empty_calibration_mapping_def FEN_SPRITE_MAPPING_keys_def)

lemma demo_pass:
  "\<exists>r. calibration_passes dec_int [(True, [Some '':1 2 3 4 5''])] fresh_reader = Inr r \<and>
       calibration_mapping r CHR ''r'' = Some [[1, 2, 3, 4, 5]]"
  apply (simp add: do_calibration_def br am)
  apply (simp add: lookup_key_def code_mapping_order_def empty_calibration_mapping_def
           FEN_SPRITE_MAPPING_keys_def)
  done

theorem calibration_codes_nonzero_distinct_witness:
  "\<exists>r. calibration_passes dec_int [(True, [Some '':1 2 3 4 5''])] fresh_reader = Inr r \<and>
       calibration_mapping r CHR ''r'' = Some [[1, 2, 3, 4, 5]] \<and>
       distinct [[1, 2, 3, 4, 5 :: int]] \<and> sum_list [1, 2, 3, 4, 5 :: int] \<noteq> 0"
proof -
  from demo_pass obtain r where
    p: "calibration_passes dec_int [(True, [Some '':1 2 3 4 5''])] fresh_reader = Inr r"
    and m: "calibration_mapping r CHR ''r'' = Some [[1, 2, 3, 4, 5]]"
    by blast
  note t = calibration_codes_nonzero_distinct [THEN conjunct2, THEN conjunct2, rule_format,
             of None fresh_reader dec_int _ r "CHR ''r''" "[[1, 2, 3, 4, 5]]"]
  from t [OF conjI [OF UsbReader_init_missing p] m]
  have "distinct [[1, 2, 3, 4, 5 :: int]] \<and>
        (\<forall>code\<in>set [[1, 2, 3, 4, 5 :: int]]. sum_list code \<noteq> 0 \<and> (\<exists>x\<in>set code. x \<noteq> 0))" .
  with p m show ?thesis by auto
qed


section \<open>Theorems: LED frames\<close>

unbundle bit_operations_syntax

lemma letters_cases:
  "c \<in> set ''abcdefgh'' \<Longrightarrow>
   c = CHR ''a'' \<or> c = CHR ''b'' \<or> c = CHR ''c'' \<or> c = CHR ''d'' \<or>
   c = CHR ''e'' \<or> c = CHR ''f'' \<or> c = CHR ''g'' \<or> c = CHR ''h''"
  by auto

lemma ranks_cases:
  "c \<in> set ''12345678'' \<Longrightarrow>
   c = CHR ''1'' \<or> c = CHR ''2'' \<or> c = CHR ''3'' \<or> c = CHR ''4'' \<or>
   c = CHR ''5'' \<or> c = CHR ''6'' \<or> c = CHR ''7'' \<or> c = CHR ''8''"
  by auto

lemma index_of_letter:
  assumes "c \<in> set ''abcdefgh''"
  shows "index_of c COLUMNS_LETTERS = Some (of_char c - 97)"
    and "index_of c COLUMNS_LETTERS_REVERSED = Some (7 - (of_char c - 97))"
    and "(of_char c :: nat) - 97 < 8"
  using letters_cases [OF assms]
  by (auto simp: COLUMNS_LETTERS_def COLUMNS_LETTERS_REVERSED_def)

lemma digit_value_rank:
  assumes "c \<in> set ''12345678''"
  shows "digit_value c = Some (of_char c - 48)"
    and "1 \<le> (of_char c :: nat) - 48" and "(of_char c :: nat) - 48 \<le> 8"
  using ranks_cases [OF assms] by (auto simp: digit_value_def)

lemma algebraic_form:
  assumes "algebraic sq"
  obtains c0 c1 where "sq = [c0, c1]" "c0 \<in> set ''abcdefgh''" "c1 \<in> set ''12345678''"
proof -
  from assms have l: "length sq = 2" by (simp add: algebraic_def)
  then obtain c0 c1 where s: "sq = [c0, c1]"
    by (metis (no_types) One_nat_def Suc_1 length_0_conv length_Suc_conv)
  with assms that show thesis by (simp add: algebraic_def)
qed

lemma square2certabo_algebraic:
  assumes "algebraic sq"
  shows "square2certabo sq rot = Inr (int (led_row rot sq), 2 ^ led_col rot sq)"
    and "led_row rot sq < 8" and "led_col rot sq < 8"
proof -
  from assms obtain c0 c1 where s: "sq = [c0, c1]" and c0: "c0 \<in> set ''abcdefgh''"
    and c1: "c1 \<in> set ''12345678''" by (rule algebraic_form)
  note i = index_of_letter [OF c0] and d = digit_value_rank [OF c1]
  show "square2certabo sq rot = Inr (int (led_row rot sq), 2 ^ led_col rot sq)"
    using i d by (auto simp: square2certabo_def s led_row_def led_col_def file_no_def rank_no_def Let_def)
  show "led_row rot sq < 8" using d by (auto simp: s led_row_def rank_no_def)
  show "led_col rot sq < 8" using i by (auto simp: s led_col_def file_no_def)
qed

lemma of_char_minus_inj:
  "(of_char c :: nat) - k = of_char c' - k \<Longrightarrow> k \<le> of_char c \<Longrightarrow> k \<le> of_char c' \<Longrightarrow> c = c'"
proof -
  assume "(of_char c :: nat) - k = of_char c' - k" "k \<le> of_char c" "k \<le> of_char c'"
  then have "(of_char c :: nat) = of_char c'" by arith
  then show "c = c'" by simp
qed

lemma led_position_inj:
  assumes "algebraic sq" and "algebraic sq'"
      and "led_row rot sq = led_row rot sq'" and "led_col rot sq = led_col rot sq'"
  shows "sq = sq'"
proof -
  from assms(1) obtain c0 c1 where s: "sq = [c0, c1]" and c0: "c0 \<in> set ''abcdefgh''"
    and c1: "c1 \<in> set ''12345678''" by (rule algebraic_form)
  from assms(2) obtain e0 e1 where t: "sq' = [e0, e1]" and e0: "e0 \<in> set ''abcdefgh''"
    and e1: "e1 \<in> set ''12345678''" by (rule algebraic_form)
  have lo0: "97 \<le> (of_char c0 :: nat)" using letters_cases [OF c0] by auto
  have lo1: "97 \<le> (of_char e0 :: nat)" using letters_cases [OF e0] by auto
  have lo2: "48 \<le> (of_char c1 :: nat)" using ranks_cases [OF c1] by auto
  have lo3: "48 \<le> (of_char e1 :: nat)" using ranks_cases [OF e1] by auto
  note b = index_of_letter(3) [OF c0] index_of_letter(3) [OF e0]
           digit_value_rank(2,3) [OF c1] digit_value_rank(2,3) [OF e1]
  have "(of_char c0 :: nat) - 97 = of_char e0 - 97"
  proof (cases rot)
    case True
    then have "7 - ((of_char c0 :: nat) - 97) = 7 - (of_char e0 - 97)"
      using assms(4) by (simp add: led_col_def file_no_def s t)
    then show ?thesis using b(1,2) by arith
  next
    case False
    then show ?thesis using assms(4) by (simp add: led_col_def file_no_def s t)
  qed
  then have f: "c0 = e0" using lo0 lo1 by (rule of_char_minus_inj)
  have "(of_char c1 :: nat) - 48 = of_char e1 - 48"
  proof (cases rot)
    case True
    then have "(of_char c1 :: nat) - 48 - 1 = of_char e1 - 48 - 1"
      using assms(3) by (simp add: led_row_def rank_no_def s t)
    then show ?thesis using b(3,5) by arith
  next
    case False
    then have "8 - ((of_char c1 :: nat) - 48) = 8 - (of_char e1 - 48)"
      using assms(3) by (simp add: led_row_def rank_no_def s t)
    then show ?thesis using b(4,6) by arith
  qed
  then have "c1 = e1" using lo2 lo3 by (rule of_char_minus_inj)
  with f s t show ?thesis by simp
qed

lemma add_bit:
  fixes x :: int
  assumes "0 \<le> x" and "x \<le> 255" and "\<not> bit x c" and "c < 8"
  shows "0 \<le> x + 2 ^ c" and "x + 2 ^ c \<le> 255" and "bit (x + 2 ^ c) n = (bit x n \<or> n = c)"
proof -
  have e: "x + 2 ^ c = x OR 2 ^ c"
    by (rule disjunctive_add) (use assms(3) in \<open>auto simp: bit_exp_iff\<close>)
  show "0 \<le> x + 2 ^ c" using assms(1) by simp
  have "(2::int) ^ c < 2 ^ 8" using assms(4) by (intro power_strict_increasing) auto
  moreover have "x < 2 ^ 8" using assms(2) by simp
  ultimately have "x OR 2 ^ c < 2 ^ 8" using assms(1) by (intro OR_upper)
  then show "x + 2 ^ c \<le> 255" unfolding e by simp
  show "bit (x + 2 ^ c) n = (bit x n \<or> n = c)" unfolding e by (auto simp: bit_or_iff bit_exp_iff)
qed

lemma corners_eq:
  "squares2led (Squares [''a1'', ''a8'', ''h1'', ''h8'']) rot = Inr [129, 0, 0, 0, 0, 0, 0, 129]"
  by (cases rot)
     (simp_all add: squares2led_def square2certabo_def COLUMNS_LETTERS_def COLUMNS_LETTERS_REVERSED_def
        digit_value_def py_index_def Let_def numeral_eq_Suc)

lemma thinking_eq:
  "squares2led (Squares [''d4'', ''e4'', ''d5'', ''e5'']) False = Inr [0, 0, 0, 24, 24, 0, 0, 0]"
  by (simp add: squares2led_def square2certabo_def COLUMNS_LETTERS_def COLUMNS_LETTERS_REVERSED_def
        digit_value_def py_index_def Let_def numeral_eq_Suc)

lemma default_messages_table:
  "default_messages =
     [''all'' \<mapsto> [255, 255, 255, 255, 255, 255, 255, 255],
      ''none'' \<mapsto> [0, 0, 0, 0, 0, 0, 0, 0],
      ''start'' \<mapsto> [255, 255, 0, 0, 0, 0, 255, 255],
      ''error'' \<mapsto> [0, 0, 0, 24, 24, 0, 0, 0],
      ''corners'' \<mapsto> [129, 0, 0, 0, 0, 0, 0, 129],
      ''thinking'' \<mapsto> [0, 0, 0, 24, 24, 0, 0, 0],
      ''setup'' \<mapsto> [255, 255, 8, 0, 0, 8, 255, 255]]"
  unfolding default_messages_def corners_eq thinking_eq
  by (simp add: numeral_eq_Suc)

lemma frame_lights_start: "frame_lights (replicate 8 0) {} rot"
  by (simp add: frame_lights_def)

lemma light_step:
  assumes sq: "algebraic sq" and fl: "frame_lights leds S rot" and S: "\<forall>s\<in>S. algebraic s"
      and new: "sq \<notin> S"
  shows "\<exists>leds1. (\<forall>sqs. light rot (sq # sqs) leds = light rot sqs leds1) \<and>
                  frame_lights leds1 (insert sq S) rot"
proof -
  let ?r = "led_row rot sq" and ?c = "led_col rot sq"
  note q = square2certabo_algebraic [OF sq, of rot]
  have len: "length leds = 8" using fl by (simp add: frame_lights_def)
  have k: "py_index leds (int ?r) = Some ?r" using q(2) len by (simp add: py_index_def Let_def)
  let ?leds1 = "leds[?r := leds ! ?r + 2 ^ ?c]"
  have st: "\<forall>sqs. light rot (sq # sqs) leds = light rot sqs ?leds1"
    by (simp add: q(1) k)
  have nb: "\<not> bit (leds ! ?r) ?c"
  proof
    assume "bit (leds ! ?r) ?c"
    then obtain s where "s \<in> S" "led_row rot s = ?r" "led_col rot s = ?c"
      using fl q(2) unfolding frame_lights_def by blast
    then have "s = sq" using led_position_inj [of s sq rot] S sq by blast
    with \<open>s \<in> S\<close> new show False by simp
  qed
  have b: "0 \<le> leds ! ?r" "leds ! ?r \<le> 255" using fl q(2) unfolding frame_lights_def by blast+
  note ab = add_bit [OF b nb q(3)]
  have "frame_lights ?leds1 (insert sq S) rot"
    unfolding frame_lights_def
  proof (intro conjI allI impI)
    show "length ?leds1 = 8" using len by simp
  next
    fix r :: nat assume r: "r < 8"
    show "0 \<le> ?leds1 ! r"
      using fl r ab(1) len unfolding frame_lights_def by (cases "r = ?r") auto
  next
    fix r :: nat assume r: "r < 8"
    show "?leds1 ! r \<le> 255"
      using fl r ab(2) len unfolding frame_lights_def by (cases "r = ?r") auto
  next
    fix r c :: nat assume r: "r < 8"
    have old: "bit (leds ! r) c = (\<exists>s\<in>S. led_row rot s = r \<and> led_col rot s = c)"
      using fl r unfolding frame_lights_def by blast
    show "bit (?leds1 ! r) c = (\<exists>s\<in>insert sq S. led_row rot s = r \<and> led_col rot s = c)"
    proof (cases "r = ?r")
      case True
      then show ?thesis using ab(3) [of c] old len q(2) by auto
    next
      case False
      then show ?thesis using old len r by auto
    qed
  qed
  with st show ?thesis by blast
qed

lemma light_lights:
  assumes "distinct sqs" and "\<forall>sq\<in>set sqs. algebraic sq" and "frame_lights leds S rot"
      and "\<forall>s\<in>S. algebraic s" and "set sqs \<inter> S = {}"
  shows "\<exists>leds'. light rot sqs leds = Inr leds' \<and> frame_lights leds' (S \<union> set sqs) rot"
  using assms
proof (induction sqs arbitrary: leds S)
  case Nil
  then show ?case by simp
next
  case (Cons sq sqs)
  have a: "algebraic sq" "sq \<notin> S" using Cons.prems by auto
  from light_step [OF a(1) Cons.prems(3,4) a(2)] obtain leds1 where
    s: "light rot (sq # sqs) leds = light rot sqs leds1" "frame_lights leds1 (insert sq S) rot"
    by blast
  have p: "distinct sqs" "\<forall>sq\<in>set sqs. algebraic sq" "\<forall>s\<in>insert sq S. algebraic s"
    "set sqs \<inter> insert sq S = {}"
    using Cons.prems by auto
  from Cons.IH [OF p(1,2) s(2) p(3,4)] show ?case unfolding s(1) by simp
qed

lemma light_request:
  assumes "distinct sqs" and "\<forall>sq\<in>set sqs. algebraic sq"
  shows "\<exists>leds. light rot sqs (replicate 8 0) = Inr leds \<and> frame_lights leds (set sqs) rot"
  using light_lights [OF assms frame_lights_start, of rot] by simp

lemma squares2led_request:
  assumes "square_request m"
  shows "\<exists>leds. squares2led m rot = Inr leds \<and> frame_lights leds (requested m) rot"
proof (cases m)
  case (Squares sqs)
  show ?thesis
  proof (cases "length sqs = 1")
    case True
    then obtain sq where "sqs = [sq]" by (cases sqs) auto
    then show ?thesis using light_request [of "[sq]" rot] assms Squares
      by (simp add: squares2led_def)
  next
    case False
    then show ?thesis using light_request [of "remdups sqs" rot] assms Squares
      by (simp add: squares2led_def)
  qed
next
  case (Text s)
  show ?thesis
  proof (cases "algebraic s")
    case True
    then have "length s < 4" by (simp add: algebraic_def)
    then show ?thesis using light_request [of "[s]" rot] True Text
      by (simp add: squares2led_def)
  next
    case False
    then have l: "length s = 4" "algebraic (take 2 s)" "algebraic (drop 2 s)" "take 2 s \<noteq> drop 2 s"
      using assms Text by auto
    then have "take 2 (drop 2 s) = drop 2 s" by simp
    then show ?thesis using light_request [of "[take 2 s, drop 2 s]" rot] l Text
      by (simp add: squares2led_def insert_commute)
  qed
qed







lemma frame_lights_unique:
  assumes "frame_lights a S rot" and "frame_lights b S rot"
  shows "a = b"
proof (rule nth_equalityI)
  show "length a = length b" using assms by (simp add: frame_lights_def)
next
  fix i assume "i < length a"
  then have i: "i < 8" using assms(1) by (simp add: frame_lights_def)
  show "a ! i = b ! i"
  proof (rule bit_eqI)
    fix n
    show "bit (a ! i) n = bit (b ! i) n"
      using assms i unfolding frame_lights_def by simp
  qed
qed

lemma corners_request: "square_request (Squares [''a1'', ''a8'', ''h1'', ''h8''])"
  by (simp add: algebraic_def)

lemma corners_any_order:
  assumes "set sqs = set [''a1'', ''a8'', ''h1'', ''h8'']"
  shows "led_frame (Squares sqs) rot = Inr [129, 0, 0, 0, 0, 0, 0, 129]"
proof -
  have "\<forall>sq\<in>set [''a1'', ''a8'', ''h1'', ''h8'']. algebraic sq"
    using corners_request unfolding square_request.simps by (rule conjunct2)
  then have a: "\<forall>sq\<in>set sqs. algebraic sq" by (simp only: assms)
  have n: "sqs \<noteq> []" using assms by (cases sqs) simp_all
  from a n have r: "square_request (Squares sqs)" by simp
  from squares2led_request [OF r, of rot] obtain leds where
    l: "squares2led (Squares sqs) rot = Inr leds" "frame_lights leds (set sqs) rot"
    by (auto simp only: requested.simps)
  from squares2led_request [OF corners_request, of rot] obtain leds0 where
    l0: "squares2led (Squares [''a1'', ''a8'', ''h1'', ''h8'']) rot = Inr leds0"
        "frame_lights leds0 (set [''a1'', ''a8'', ''h1'', ''h8'']) rot"
    by (auto simp only: requested.simps)
  have "leds0 = [129, 0, 0, 0, 0, 0, 0, 129]" using l0(1) by (simp only: corners_eq sum.inject)
  then have "frame_lights [129, 0, 0, 0, 0, 0, 0, 129] (set sqs) rot" using l0(2) by (simp only: assms)
  from frame_lights_unique [OF l(2) this] l(1) show ?thesis by (simp add: led_frame_def)
qed


lemma set_leds_last:
  "set_leds m rot lm = Inr lm1 \<Longrightarrow> last_message lm1 = Some m"
  by (auto simp: set_leds_def split: if_splits sum.splits)

lemma set_leds_queue:
  "last_message lm \<noteq> Some m \<Longrightarrow> set_leds m rot lm = Inr lm1 \<Longrightarrow>
   \<exists>frame. length frame = length (case led_frame m rot of Inr leds \<Rightarrow> leds | Inl e \<Rightarrow> []) \<and>
           queue_to_usbtool lm1 = queue_to_usbtool lm @ [frame]"
  by (auto simp: set_leds_def py_bytes_def split: if_splits sum.splits)

text \<open>
  C7. The squares a1, a8, h1, h8, in any order and with any repetition, give the frame of
  the pattern \<open>corners\<close>; and calling \<open>set_leds\<close> with a message a second time
  directly after the first is a no-op, so that the two calls of a new message put exactly
  one frame on the queue.
\<close>

theorem set_leds_corners_and_repeat:
  "(\<forall>sqs rot. set sqs = set [''a1'', ''a8'', ''h1'', ''h8''] \<longrightarrow>
      led_frame (Squares sqs) rot = led_frame (Text ''corners'') rot \<and>
      led_frame (Text ''corners'') rot = Inr [129, 0, 0, 0, 0, 0, 0, 129])
   \<and> (\<forall>m rot rot' lm lm1. set_leds m rot lm = Inr lm1 \<longrightarrow> set_leds m rot' lm1 = Inr lm1)
   \<and> (\<forall>m rot rot' lm lm1. last_message lm \<noteq> Some m \<and> set_leds m rot lm = Inr lm1 \<longrightarrow>
         (\<exists>frame lm2. set_leds m rot' lm1 = Inr lm2 \<and>
            queue_to_usbtool lm2 = queue_to_usbtool lm @ [frame]))"
proof -
  have c: "led_frame (Text ''corners'') rot = Inr [129, 0, 0, 0, 0, 0, 0, 129]" for rot
    by (simp add: led_frame_def default_messages_table)
  have a: "led_frame (Squares sqs) rot = led_frame (Text ''corners'') rot \<and>
           led_frame (Text ''corners'') rot = Inr [129, 0, 0, 0, 0, 0, 0, 129]"
    if "set sqs = set [''a1'', ''a8'', ''h1'', ''h8'']" for sqs rot
    using corners_any_order [OF that, of rot] c [of rot] by simp
  have n: "set_leds m rot' lm1 = Inr lm1" if "set_leds m rot lm = Inr lm1" for m rot rot' lm lm1
    using set_leds_last [OF that] by (simp add: set_leds_def)
  have o: "\<exists>frame lm2. set_leds m rot' lm1 = Inr lm2 \<and>
            queue_to_usbtool lm2 = queue_to_usbtool lm @ [frame]"
    if "last_message lm \<noteq> Some m \<and> set_leds m rot lm = Inr lm1" for m rot rot' lm lm1
    using set_leds_queue [of lm m rot lm1] n [of m rot lm lm1 rot'] that by auto
  show ?thesis using a n o by (intro conjI allI impI) blast+
qed

theorem set_leds_corners_and_repeat_witness:
  "led_frame (Squares [''h8'', ''a1'', ''h1'', ''a8'', ''a1'']) True = led_frame (Text ''corners'') True
   \<and> (\<exists>lm1 frame. set_leds (Text ''corners'') False (LedManager_init []) = Inr lm1 \<and>
         set_leds (Text ''corners'') False lm1 = Inr lm1 \<and> queue_to_usbtool lm1 = [frame])"
proof -
  note t = set_leds_corners_and_repeat
  have s: "set [''h8'', ''a1'', ''h1'', ''a8'', ''a1''] = set [''a1'', ''a8'', ''h1'', ''h8'']" by auto
  have a: "led_frame (Squares [''h8'', ''a1'', ''h1'', ''a8'', ''a1'']) True =
           led_frame (Text ''corners'') True"
    using t s by blast
  have f: "set_leds (Text ''corners'') False (LedManager_init []) =
             Inr ((LedManager_init [])\<lparr>last_message := Some (Text ''corners''),
                    queue_to_usbtool := [[129, 0, 0, 0, 0, 0, 0, 129]]\<rparr>)"
    by (simp add: set_leds_def led_frame_def default_messages_table py_bytes_def LedManager_init_def)
  have n: "last_message (LedManager_init []) \<noteq> Some (Text ''corners'')"
    by (simp add: LedManager_init_def)
  from t n f obtain frame lm2 where
    "set_leds (Text ''corners'') False
       ((LedManager_init [])\<lparr>last_message := Some (Text ''corners''),
                    queue_to_usbtool := [[129, 0, 0, 0, 0, 0, 0, 129]]\<rparr>) = Inr lm2"
    "queue_to_usbtool lm2 = queue_to_usbtool (LedManager_init []) @ [frame]"
    by blast
  moreover from t f have "set_leds (Text ''corners'') False
       ((LedManager_init [])\<lparr>last_message := Some (Text ''corners''),
                    queue_to_usbtool := [[129, 0, 0, 0, 0, 0, 0, 129]]\<rparr>) =
       Inr ((LedManager_init [])\<lparr>last_message := Some (Text ''corners''),
                    queue_to_usbtool := [[129, 0, 0, 0, 0, 0, 0, 129]]\<rparr>)"
    by blast
  ultimately show ?thesis using a f by (auto simp: LedManager_init_def)
qed


section \<open>Theorems: debouncing of gestures\<close>


















section \<open>Theorems: the exit gesture\<close>


lemma set_leds_corners:
  "\<exists>lm1. set_leds (Text ''corners'') rot lm = Inr lm1 \<and> last_message lm1 = Some (Text ''corners'')"
  by (auto simp: set_leds_def led_frame_def default_messages_table py_bytes_def)






section \<open>Theorems: the first three frames\<close>

lemma drain_before_three:
  assumes "length (data_history r) = 3" and "- 3 \<le> data_history_i r"
      and "data_history_i r + int (length frames) < 0"
  shows "\<exists>r' ch. drain frames r c = Inr (r', ch) \<and>
           data_history_i r' = data_history_i r + int (length frames) \<and>
           length (data_history r') = 3 \<and> board_fen r' = board_fen r"
  using assms
proof (induction frames arbitrary: r c)
  case Nil
  then show ?case by simp
next
  case (Cons data q)
  let ?k = "nat (3 + data_history_i r)"
  have k: "py_index (data_history r) (data_history_i r) = Some ?k"
    using Cons.prems by (simp add: py_index_def Let_def)
  let ?r1 = "if data_history r ! ?k \<noteq> Some data
             then r\<lparr>data_history := (data_history r)[?k := Some data]\<rparr> else r"
  let ?r2 = "?r1\<lparr>data_history_i := data_history_i r + 1\<rparr>"
  have st: "drain (data # q) r c = drain q ?r2 (c \<or> data_history r ! ?k \<noteq> Some data)"
    using Cons.prems by (simp add: k Let_def data_history_depth_def)
  have p: "length (data_history ?r2) = 3" "- 3 \<le> data_history_i ?r2"
    "data_history_i ?r2 + int (length q) < 0"
    using Cons.prems by auto
  from Cons.IH [OF p] obtain r' ch where
    "drain q ?r2 (c \<or> data_history r ! ?k \<noteq> Some data) = Inr (r', ch)"
    "data_history_i r' = data_history_i ?r2 + int (length q)"
    "length (data_history r') = 3" "board_fen r' = board_fen ?r2" by blast
  then show ?case unfolding st by auto
qed

lemma read_board_before_three:
  assumes "length (data_history r) = 3" and "- 3 \<le> data_history_i r"
      and "data_history_i r + int (length frames) < 0"
  shows "\<exists>r'. read_board rot frames r = Inr (if rot then rev (board_fen r) else board_fen r, r') \<and>
           data_history_i r' = data_history_i r + int (length frames) \<and>
           length (data_history r') = 3 \<and> board_fen r' = board_fen r"
proof -
  from drain_before_three [OF assms, of False] obtain r' ch where
    d: "drain frames r False = Inr (r', ch)"
    "data_history_i r' = data_history_i r + int (length frames)"
    "length (data_history r') = 3" "board_fen r' = board_fen r" by blast
  have "update frames r = Inr r'" using d(1,2) assms(3) by (simp add: update_def)
  then show ?thesis using d by (simp add: read_board_def)
qed

lemma read_boards_before_three:
  assumes "length (data_history r) = 3" and "- 3 \<le> data_history_i r"
      and "data_history_i r + int (length (concat (map snd polls))) < 0"
  shows "\<exists>r'. read_boards polls r =
                 Inr (map (\<lambda>p. if fst p then rev (board_fen r) else board_fen r) polls, r')"
  using assms
proof (induction polls arbitrary: r)
  case Nil
  then show ?case by simp
next
  case (Cons p polls)
  obtain rot frames where p: "p = (rot, frames)" by (cases p)
  have f: "data_history_i r + int (length frames) < 0" using Cons.prems(3) p by simp
  from read_board_before_three [OF Cons.prems(1,2) f, of rot] obtain r1 where
    r1: "read_board rot frames r = Inr (if rot then rev (board_fen r) else board_fen r, r1)"
    "data_history_i r1 = data_history_i r + int (length frames)"
    "length (data_history r1) = 3" "board_fen r1 = board_fen r" by blast
  have q: "- 3 \<le> data_history_i r1" "data_history_i r1 + int (length (concat (map snd polls))) < 0"
    using r1(2) Cons.prems(2,3) p by auto
  from Cons.IH [OF r1(3) q] obtain r' where
    "read_boards polls r1 =
       Inr (map (\<lambda>p. if fst p then rev (board_fen r1) else board_fen r1) polls, r')" by blast
  then show ?case using r1 p by auto
qed

lemma UsbReader_init_fields:
  assumes "UsbReader_init file = Inr r0"
  shows "data_history_i r0 = - 3 \<and> length (data_history r0) = 3 \<and> board_fen r0 = start_board_fen"
  using assms
  by (auto simp: UsbReader_init_def load_piece_codes_def data_history_depth_def Let_def
           split: option.splits calib_file.splits)

lemma drain_no_frame_differs:
  assumes "length (data_history r) = 3" and "0 \<le> data_history_i r" and "data_history_i r < 3"
      and "no_frame_differs frames (data_history r) (nat (data_history_i r))"
  shows "\<exists>i. drain frames r c = Inr (r\<lparr>data_history_i := i\<rparr>, c) \<and> 0 \<le> i \<and> i < 3"
  using assms
proof (induction frames arbitrary: r c)
  case Nil
  have "r\<lparr>data_history_i := data_history_i r\<rparr> = r" by simp
  then show ?case using Nil.prems by (metis drain.simps(1))
next
  case (Cons data q)
  let ?k = "nat (data_history_i r)"
  let ?i = "if 3 \<le> data_history_i r + 1 then 0 else data_history_i r + 1"
  have k: "py_index (data_history r) (data_history_i r) = Some ?k"
    using Cons.prems by (simp add: py_index_def Let_def)
  have same: "data_history r ! ?k = Some data" using Cons.prems(4) by simp
  have st: "drain (data # q) r c = drain q (r\<lparr>data_history_i := ?i\<rparr>) c"
    using same by (simp add: k Let_def data_history_depth_def)
  have n: "nat ?i = (if ?k + 1 \<ge> 3 then 0 else ?k + 1)" using Cons.prems(2,3) by auto
  have p: "length (data_history (r\<lparr>data_history_i := ?i\<rparr>)) = 3"
    "0 \<le> data_history_i (r\<lparr>data_history_i := ?i\<rparr>)"
    "data_history_i (r\<lparr>data_history_i := ?i\<rparr>) < 3"
    "no_frame_differs q (data_history (r\<lparr>data_history_i := ?i\<rparr>))
       (nat (data_history_i (r\<lparr>data_history_i := ?i\<rparr>)))"
    using Cons.prems n by (auto split: if_splits)
  from Cons.IH [OF p, of c] show ?case unfolding st by auto
qed

lemma drain_step_ring_ok:
  assumes "ring_ok r"
  shows "\<exists>r2 ch. (\<forall>q. drain (data # q) r c = drain q r2 ch) \<and> ring_ok r2"
proof -
  from assms obtain x y z where h: "data_history r = [x, y, z]" unfolding ring_ok_def by blast
  from assms consider "data_history_i r = - 3" | "data_history_i r = - 2" | "data_history_i r = - 1"
    | "data_history_i r = 0" | "data_history_i r = 1" | "data_history_i r = 2"
    unfolding ring_ok_def by fastforce
  then show ?thesis
  proof cases
    case 1
    let ?r2 = "(if x \<noteq> Some data then r\<lparr>data_history := [Some data, y, z]\<rparr> else r)\<lparr>data_history_i := - 2\<rparr>"
    have "\<forall>q. drain (data # q) r c = drain q ?r2 (c \<or> x \<noteq> Some data)"
      using 1 h by (simp add: py_index_def Let_def data_history_depth_def)
    moreover have "ring_ok ?r2" using h by (auto simp: ring_ok_def)
    ultimately show ?thesis by blast
  next
    case 2
    let ?r2 = "(if y \<noteq> Some data then r\<lparr>data_history := [x, Some data, z]\<rparr> else r)\<lparr>data_history_i := - 1\<rparr>"
    have "\<forall>q. drain (data # q) r c = drain q ?r2 (c \<or> y \<noteq> Some data)"
      using 2 h by (simp add: py_index_def Let_def data_history_depth_def)
    moreover have "ring_ok ?r2" using h assms 2 by (auto simp: ring_ok_def)
    ultimately show ?thesis by blast
  next
    case 3
    let ?r2 = "(if z \<noteq> Some data then r\<lparr>data_history := [x, y, Some data]\<rparr> else r)\<lparr>data_history_i := 0\<rparr>"
    have "\<forall>q. drain (data # q) r c = drain q ?r2 (c \<or> z \<noteq> Some data)"
      using 3 h by (simp add: py_index_def Let_def data_history_depth_def)
    moreover have "ring_ok ?r2" using h assms 3 by (auto simp: ring_ok_def)
    ultimately show ?thesis by blast
  next
    case 4
    let ?r2 = "(if x \<noteq> Some data then r\<lparr>data_history := [Some data, y, z]\<rparr> else r)\<lparr>data_history_i := 1\<rparr>"
    have "\<forall>q. drain (data # q) r c = drain q ?r2 (c \<or> x \<noteq> Some data)"
      using 4 h by (simp add: py_index_def Let_def data_history_depth_def)
    moreover have "ring_ok ?r2" using h assms 4 by (auto simp: ring_ok_def)
    ultimately show ?thesis by blast
  next
    case 5
    let ?r2 = "(if y \<noteq> Some data then r\<lparr>data_history := [x, Some data, z]\<rparr> else r)\<lparr>data_history_i := 2\<rparr>"
    have "\<forall>q. drain (data # q) r c = drain q ?r2 (c \<or> y \<noteq> Some data)"
      using 5 h by (simp add: py_index_def Let_def data_history_depth_def)
    moreover have "ring_ok ?r2" using h assms 5 by (auto simp: ring_ok_def)
    ultimately show ?thesis by blast
  next
    case 6
    let ?r2 = "(if z \<noteq> Some data then r\<lparr>data_history := [x, y, Some data]\<rparr> else r)\<lparr>data_history_i := 0\<rparr>"
    have "\<forall>q. drain (data # q) r c = drain q ?r2 (c \<or> z \<noteq> Some data)"
      using 6 h by (simp add: py_index_def Let_def data_history_depth_def)
    moreover have "ring_ok ?r2" using h assms 6 by (auto simp: ring_ok_def)
    ultimately show ?thesis by blast
  qed
qed

lemma drain_ring_ok:
  "ring_ok r \<Longrightarrow> \<exists>r' ch. drain frames r c = Inr (r', ch) \<and> ring_ok r'"
proof (induction frames arbitrary: r c)
  case Nil
  then show ?case by simp
next
  case (Cons data q)
  from drain_step_ring_ok [OF Cons.prems, of data c] obtain r2 ch where
    s: "drain (data # q) r c = drain q r2 ch" "ring_ok r2" by blast
  from Cons.IH [OF s(2), of ch] show ?case unfolding s(1) .
qed

lemma data_to_fen_ring_ok:
  assumes "ring_ok r" and "0 \<le> data_history_i r"
  shows "\<exists>r'. data_to_fen r = Inr r' \<and> ring_ok r'"
proof -
  from assms obtain d0 d1 d2 where h: "data_history r = [Some d0, Some d1, Some d2]"
    unfolding ring_ok_def by auto
  from decode_board_three [OF h] show ?thesis
    using assms h by (auto simp: data_to_fen_def ring_ok_def)
qed

lemma read_board_ring_ok:
  assumes "ring_ok r"
  shows "\<exists>fen r'. read_board rot frames r = Inr (fen, r') \<and> ring_ok r'"
proof -
  from drain_ring_ok [OF assms, of frames False] obtain r1 ch where
    d: "drain frames r False = Inr (r1, ch)" "ring_ok r1" by blast
  show ?thesis
  proof (cases "ch \<and> 0 \<le> data_history_i r1")
    case True
    with data_to_fen_ring_ok [OF d(2)] obtain r2 where "data_to_fen r1 = Inr r2" "ring_ok r2" by blast
    then show ?thesis using d True by (auto simp: read_board_def update_def)
  next
    case False
    then show ?thesis using d by (auto simp: read_board_def update_def)
  qed
qed

lemma read_boards_ring_ok:
  "ring_ok r \<Longrightarrow> \<exists>res. read_boards polls r = Inr res"
proof (induction polls arbitrary: r)
  case Nil
  then show ?case by simp
next
  case (Cons p polls)
  obtain rot frames where p: "p = (rot, frames)" by (cases p)
  from read_board_ring_ok [OF Cons.prems, of rot frames] obtain fen r1 where
    r1: "read_board rot frames r = Inr (fen, r1)" "ring_ok r1" by blast
  from Cons.IH [OF r1(2)] obtain res where "read_boards polls r1 = Inr res" by blast
  then show ?case using r1 p by (cases res) auto
qed

lemma UsbReader_init_ring_ok: "UsbReader_init cfile = Inr r0 \<Longrightarrow> ring_ok r0"
  by (auto simp: UsbReader_init_def load_piece_codes_def data_history_depth_def Let_def ring_ok_def
           numeral_3_eq_3 split: option.splits calib_file.splits)

text \<open>
  C10. From construction, as long as fewer than three frames have arrived, every
  \<open>read_board\<close> returns the starting position (reversed when mirrored), whatever the
  frames hold; polling never raises; and once the ring is full, a poll in which no drained
  frame differs from the slot it replaces changes the ring index only: the snapshot is not
  recomputed.
\<close>

theorem read_board_needs_three_frames:
  "(\<forall>file r0 polls. UsbReader_init file = Inr r0 \<and> length (concat (map snd polls)) < 3 \<longrightarrow>
      (\<exists>r'. read_boards polls r0 =
         Inr (map (\<lambda>p. if fst p then rev start_board_fen else start_board_fen) polls, r')))
   \<and> (\<forall>file r0 polls. UsbReader_init file = Inr r0 \<longrightarrow> (\<exists>res. read_boards polls r0 = Inr res))
   \<and> (\<forall>r frames. length (data_history r) = 3 \<and> 0 \<le> data_history_i r \<and> data_history_i r < 3 \<and>
         no_frame_differs frames (data_history r) (nat (data_history_i r)) \<longrightarrow>
         (\<exists>i. update frames r = Inr (r\<lparr>data_history_i := i\<rparr>)))"
proof (intro conjI allI impI)
  fix cfile r0 and polls :: "(bool \<times> string list) list"
  assume a: "UsbReader_init cfile = Inr r0 \<and> length (concat (map snd polls)) < 3"
  from UsbReader_init_fields [of cfile r0] a have
    f: "data_history_i r0 = - 3" "length (data_history r0) = 3" "board_fen r0 = start_board_fen"
    by auto
  have "data_history_i r0 + int (length (concat (map snd polls))) < 0" using a f(1) by simp
  from read_boards_before_three [OF f(2) _ this] f(1)
  have "\<exists>r'. read_boards polls r0 =
         Inr (map (\<lambda>p. if fst p then rev (board_fen r0) else board_fen r0) polls, r')"
    by simp
  then show "\<exists>r'. read_boards polls r0 =
         Inr (map (\<lambda>p. if fst p then rev start_board_fen else start_board_fen) polls, r')"
    unfolding f(3) .
next
  fix cfile r0 and polls :: "(bool \<times> string list) list"
  assume "UsbReader_init cfile = Inr r0"
  then show "\<exists>res. read_boards polls r0 = Inr res"
    using read_boards_ring_ok UsbReader_init_ring_ok by blast
next
  fix r :: usb_reader and frames
  assume a: "length (data_history r) = 3 \<and> 0 \<le> data_history_i r \<and> data_history_i r < 3 \<and>
         no_frame_differs frames (data_history r) (nat (data_history_i r))"
  then obtain i where "drain frames r False = Inr (r\<lparr>data_history_i := i\<rparr>, False)"
    using drain_no_frame_differs [of r frames False] by blast
  then show "\<exists>i. update frames r = Inr (r\<lparr>data_history_i := i\<rparr>)"
    by (auto simp: update_def)
qed


theorem read_board_needs_three_frames_witness:
  "(\<exists>r'. read_boards [(False, ['':1 0 0 0 0'']), (True, []), (False, ['':7 7 7 7 7''])]
            (demo_reader\<lparr>data_history_i := - 3, data_history := [None, None, None],
                         code_mapping := [zero_code \<mapsto> CHR ''.'']\<rparr>) =
          Inr ([start_board_fen, rev start_board_fen, start_board_fen], r'))
   \<and> (\<exists>i. update ['':1 0 0 0 0'', '':7 7 7 7 7''] demo_reader = Inr (demo_reader\<lparr>data_history_i := i\<rparr>))"
proof -
  note t = read_board_needs_three_frames
  have i: "UsbReader_init (Some (Pickled [])) =
             Inr (demo_reader\<lparr>data_history_i := - 3, data_history := [None, None, None],
                               code_mapping := [zero_code \<mapsto> CHR ''.'']\<rparr>)"
    by (simp add: UsbReader_init_def load_piece_codes_def demo_reader_def data_history_depth_def
          numeral_3_eq_3)
  have l: "length (concat (map snd [(False, ['':1 0 0 0 0'']), (True, []), (False, ['':7 7 7 7 7''])])) < 3"
    by simp
  have a: "\<exists>r'. read_boards [(False, ['':1 0 0 0 0'']), (True, []), (False, ['':7 7 7 7 7''])]
            (demo_reader\<lparr>data_history_i := - 3, data_history := [None, None, None],
                         code_mapping := [zero_code \<mapsto> CHR ''.'']\<rparr>) =
          Inr (map (\<lambda>p. if fst p then rev start_board_fen else start_board_fen)
                 [(False, ['':1 0 0 0 0'']), (True, []), (False, ['':7 7 7 7 7''])], r')"
    using t i l by blast
  have n: "length (data_history demo_reader) = 3 \<and> 0 \<le> data_history_i demo_reader \<and>
           data_history_i demo_reader < 3 \<and>
           no_frame_differs ['':1 0 0 0 0'', '':7 7 7 7 7''] (data_history demo_reader)
             (nat (data_history_i demo_reader))"
    by (simp add: demo_reader_def)
  have b: "\<exists>i. update ['':1 0 0 0 0'', '':7 7 7 7 7''] demo_reader = Inr (demo_reader\<lparr>data_history_i := i\<rparr>)"
    using t n by blast
  from a b show ?thesis by simp
qed

end
